theory Spec2Isabelle
  imports Main "HOL-Library.AList" "HOL-Library.Sublist" "HOL-Library.Multiset"
begin

section \<open>JavaScript strings and arrays\<close>

text \<open>
  A JavaScript string is modelled as a \<^typ>\<open>string\<close>, one \<^typ>\<open>char\<close> per code unit;
  the model covers the code units below 256. The regular expression class \<open>\s\<close> and
  \<open>String.prototype.trim\<close> use the same set of white space and line terminator code units;
  below 256 these are TAB, LF, VT, FF, CR, SPACE and NBSP.
\<close>

definition isSpace :: "char \<Rightarrow> bool" where
  "isSpace c = (of_char c \<in> {9, 10, 11, 12, 13, 32, 160 :: nat})"

definition js_trim :: "string \<Rightarrow> string" where
  "js_trim s = rev (dropWhile isSpace (rev (dropWhile isSpace s)))"

text \<open>\<open>Array.prototype.splice(start, deleteCount, ...items)\<close>, returning the array after
  the splice; a negative start counts from the end, and both numbers are clamped.\<close>

definition js_splice :: "'a list \<Rightarrow> int \<Rightarrow> int \<Rightarrow> 'a list \<Rightarrow> 'a list" where
  "js_splice xs start deleteCount items =
     (let len = int (length xs);
          actualStart = (if start < 0 then max (len + start) 0 else min start len);
          actualDeleteCount = min (max deleteCount 0) (len - actualStart)
      in take (nat actualStart) xs @ items @ drop (nat (actualStart + actualDeleteCount)) xs)"

text \<open>\<open>Array.prototype.slice(start, end)\<close> and \<open>String.prototype.slice(start, end)\<close>.\<close>

definition js_slice :: "'a list \<Rightarrow> int \<Rightarrow> int \<Rightarrow> 'a list" where
  "js_slice xs start end =
     (let len = int (length xs);
          k = (if start < 0 then max (len + start) 0 else min start len);
          final = (if end < 0 then max (len + end) 0 else min end len)
      in take (nat (final - k)) (drop (nat k) xs))"

text \<open>\<open>xs[i]\<close>: \<open>undefined\<close> (here \<open>None\<close>) outside the array.\<close>

definition js_index :: "'a list \<Rightarrow> int \<Rightarrow> 'a option" where
  "js_index xs i = (if 0 \<le> i \<and> i < int (length xs) then Some (xs ! nat i) else None)"

text \<open>\<open>s.indexOf(part, offset)\<close> for a non-negative offset: the least position from the
  (clamped) offset on at which \<open>part\<close> occurs; \<open>None\<close> stands for \<open>-1\<close>.\<close>

definition js_indexOf :: "string \<Rightarrow> string \<Rightarrow> nat \<Rightarrow> nat option" where
  "js_indexOf s part offset =
     List.find (\<lambda>k. k + length part \<le> length s \<and> take (length part) (drop k s) = part)
       [min offset (length s) ..< Suc (length s)]"

text \<open>\<open>xs.join(sep)\<close> and \<open>s.split("\n")\<close>.\<close>

fun js_join :: "string \<Rightarrow> string list \<Rightarrow> string" where
  "js_join sep [] = []"
| "js_join sep [x] = x"
| "js_join sep (x # y # ys) = x @ sep @ js_join sep (y # ys)"

fun split_lines_acc :: "string \<Rightarrow> string \<Rightarrow> string list" where
  "split_lines_acc acc [] = [rev acc]"
| "split_lines_acc acc (c # cs) =
     (if c = CHR 0x0A then rev acc # split_lines_acc [] cs else split_lines_acc (c # acc) cs)"

definition split_lines :: "string \<Rightarrow> string list" where
  "split_lines s = split_lines_acc [] s"

text \<open>\<open>Array.prototype.sort(compare)\<close> is stable, and reads only the sign of what the
  comparator returns. For a comparator that is a total preorder, as the comparators of
  this program are, the result is the stable sort: insertion from the right, each element
  placed before the first element it does not exceed.\<close>

fun insort_cmp :: "('a \<Rightarrow> 'a \<Rightarrow> int) \<Rightarrow> 'a \<Rightarrow> 'a list \<Rightarrow> 'a list" where
  "insort_cmp cmp x [] = [x]"
| "insort_cmp cmp x (y # ys) =
     (if cmp x y \<le> 0 then x # y # ys else y # insort_cmp cmp x ys)"

definition sort_cmp :: "('a \<Rightarrow> 'a \<Rightarrow> int) \<Rightarrow> 'a list \<Rightarrow> 'a list" where
  "sort_cmp cmp xs = foldr (insort_cmp cmp) xs []"

section \<open>Autocorrection heuristics\<close>

definition stripAllWhitespace :: "string \<Rightarrow> string" where
  "stripAllWhitespace text = filter (\<lambda>c. \<not> isSpace c) text"

text \<open>The continuation tokens of the regular expression
  \<open>/(?:&&|\|\||\?\?|\?|:|=|,|\+|-|\*|\/|\.|\()\s*$/u\<close>. The expression matches at the
  leftmost position from which a token followed only by white space reaches the end of the
  text, and the replacement removes the match, which is the rest of the text.\<close>

definition continuationTokens :: "string list" where
  "continuationTokens =
     [''&&'', ''||'', ''??'', ''?'', '':'', ''='', '','', ''+'', ''-'', ''*'', ''/'', ''.'', ''('']"

definition matchesContinuationTail :: "string \<Rightarrow> bool" where
  "matchesContinuationTail s =
     list_ex (\<lambda>tok. take (length tok) s = tok \<and> list_all isSpace (drop (length tok) s))
       continuationTokens"

fun stripTrailingContinuationTokens :: "string \<Rightarrow> string" where
  "stripTrailingContinuationTokens [] = []"
| "stripTrailingContinuationTokens (c # cs) =
     (if matchesContinuationTail (c # cs) then []
      else c # stripTrailingContinuationTokens cs)"

definition leadingWhitespace :: "string \<Rightarrow> string" where
  "leadingWhitespace text = (if text = [] then [] else takeWhile isSpace text)"

subsection \<open>Stale-wrap restoration\<close>

text \<open>A JavaScript \<open>Map\<close> keeps its keys in insertion order and \<open>set\<close> on a present key
  keeps the key's place: an association list under \<^const>\<open>AList.update\<close>.\<close>

record OriginalEntry =
  entry_line :: string
  entry_count :: nat

record Candidate =
  cand_start :: nat
  cand_len :: nat
  cand_replacement :: string

definition canonicalStep :: "string \<Rightarrow> (string \<times> OriginalEntry) list \<Rightarrow> (string \<times> OriginalEntry) list" where
  "canonicalStep ln m =
     (let canonical = stripAllWhitespace ln in
      case map_of m canonical of
        Some existing \<Rightarrow> AList.update canonical (existing\<lparr>entry_count := entry_count existing + 1\<rparr>) m
      | None \<Rightarrow> AList.update canonical \<lparr>entry_line = ln, entry_count = 1\<rparr> m)"

definition canonicalToOriginal :: "string list \<Rightarrow> (string \<times> OriginalEntry) list" where
  "canonicalToOriginal originalLines = foldl (\<lambda>m ln. canonicalStep ln m) [] originalLines"

text \<open>The two nested loops visit the spans in this order.\<close>

definition spanIndices :: "nat \<Rightarrow> (nat \<times> nat) list" where
  "spanIndices n =
     concat (map (\<lambda>start. map (\<lambda>len. (start, len)) [2 ..< Suc (min 10 (n - start))]) [0 ..< n])"

definition candidateStep ::
  "(string \<times> OriginalEntry) list \<Rightarrow> string list \<Rightarrow> nat \<times> nat \<Rightarrow>
   (string \<times> nat) list \<times> (string \<times> Candidate) list \<Rightarrow>
   (string \<times> nat) list \<times> (string \<times> Candidate) list" where
  "candidateStep c2o replacementLines sl st =
     (let start = fst sl; len = snd sl;
          span = js_slice replacementLines (int start) (int start + int len) in
      if list_ex (\<lambda>ln. length (js_trim ln) = 0) span then st
      else
        let canonical = stripAllWhitespace (concat span) in
        case map_of c2o canonical of
          None \<Rightarrow> st
        | Some original \<Rightarrow>
            if entry_count original \<noteq> 1 \<or> length canonical < 6 then st
            else
              (AList.update canonical
                 ((case map_of (fst st) canonical of None \<Rightarrow> 0 | Some n \<Rightarrow> n) + 1) (fst st),
               AList.update canonical
                 \<lparr>cand_start = start, cand_len = len, cand_replacement = entry_line original\<rparr>
                 (snd st)))"

definition collectCandidates ::
  "string list \<Rightarrow> string list \<Rightarrow> (string \<times> nat) list \<times> (string \<times> Candidate) list" where
  "collectCandidates originalLines replacementLines =
     foldl (\<lambda>st sl. candidateStep (canonicalToOriginal originalLines) replacementLines sl st)
       ([], []) (spanIndices (length replacementLines))"

definition uniqueCandidates :: "string list \<Rightarrow> string list \<Rightarrow> Candidate list" where
  "uniqueCandidates originalLines replacementLines =
     (let st = collectCandidates originalLines replacementLines in
      map snd (filter (\<lambda>kv. (case map_of (fst st) (fst kv) of None \<Rightarrow> 0 | Some n \<Rightarrow> n) = 1)
                 (snd st)))"

definition spliceCandidate :: "string list \<Rightarrow> Candidate \<Rightarrow> string list" where
  "spliceCandidate correctedLines candidate =
     js_splice correctedLines (int (cand_start candidate)) (int (cand_len candidate))
       [cand_replacement candidate]"

definition restoreOldWrappedLines :: "string list \<Rightarrow> string list \<Rightarrow> string list" where
  "restoreOldWrappedLines originalLines replacementLines =
     (if length originalLines = 0 \<or> length replacementLines < 2 then replacementLines
      else
        let unique = uniqueCandidates originalLines replacementLines in
        if length unique = 0 then replacementLines
        else foldl spliceCandidate replacementLines
               (sort_cmp (\<lambda>a b. int (cand_start b) - int (cand_start a)) unique))"

subsection \<open>Single-line-merge expansion\<close>

text \<open>\<open>merged.split(/;\s+/)\<close>: a separator is a semicolon and all the white space after it,
  at least one.\<close>

function split_semicolon_acc :: "string \<Rightarrow> string \<Rightarrow> string list" where
  "split_semicolon_acc acc [] = [rev acc]"
| "split_semicolon_acc acc (c # cs) =
     (if c = CHR '';'' \<and> cs \<noteq> [] \<and> isSpace (hd cs)
      then rev acc # split_semicolon_acc [] (dropWhile isSpace cs)
      else split_semicolon_acc (c # acc) cs)"
  by pat_completeness auto
termination
  by (relation "measure (\<lambda>(acc, s). length s)")
     (auto simp: less_Suc_eq_le length_dropWhile_le)

definition endsWith :: "string \<Rightarrow> string \<Rightarrow> bool" where
  "endsWith s suf = (length suf \<le> length s \<and> drop (length s - length suf) s = suf)"

definition semicolonSplitFallback :: "string \<Rightarrow> nat \<Rightarrow> string list \<Rightarrow> string list" where
  "semicolonSplitFallback merged expectedCount replacementLines =
     (let arr = split_semicolon_acc [] merged;
          semicolonSplit =
            filter (\<lambda>ln. length ln > 0)
              (map js_trim
                 (map (\<lambda>(idx, ln). if idx < length arr - 1 \<and> \<not> endsWith ln '';'' then ln @ '';'' else ln)
                    (enumerate 0 arr)))
      in if length semicolonSplit = expectedCount then semicolonSplit else replacementLines)"

text \<open>The first loop of \<open>maybeExpandSingleLineMerge\<close>: the positions of the parts in the
  merged line, or \<open>None\<close> when a part is not found (the loop returns the fallback).\<close>

fun locateParts :: "string \<Rightarrow> string list \<Rightarrow> nat \<Rightarrow> nat list option" where
  "locateParts merged [] offset = Some []"
| "locateParts merged (part # parts) offset =
     (case js_indexOf merged part offset of
        Some idx \<Rightarrow> map_option ((#) idx) (locateParts merged parts (idx + length part))
      | None \<Rightarrow>
          (let stripped = stripTrailingContinuationTokens part in
           if stripped \<noteq> part then
             (case js_indexOf merged stripped offset of
                Some idx \<Rightarrow> map_option ((#) idx) (locateParts merged parts (idx + length stripped))
              | None \<Rightarrow> None)
           else None))"

text \<open>The second loop: the text between consecutive positions, trimmed; \<open>None\<close> when a
  piece is empty.\<close>

fun expandParts :: "string \<Rightarrow> nat list \<Rightarrow> string list option" where
  "expandParts merged [] = Some []"
| "expandParts merged (start # rest) =
     (let end = (case rest of [] \<Rightarrow> length merged | e # _ \<Rightarrow> e);
          candidate = js_trim (js_slice merged (int start) (int end))
      in if length candidate = 0 then None
         else map_option ((#) candidate) (expandParts merged rest))"

definition maybeExpandSingleLineMerge :: "string list \<Rightarrow> string list \<Rightarrow> string list" where
  "maybeExpandSingleLineMerge originalLines replacementLines =
     (if length replacementLines \<noteq> 1 \<or> length originalLines \<le> 1 then replacementLines
      else
        let merged = replacementLines ! 0;
            parts = filter (\<lambda>ln. length ln > 0) (map js_trim originalLines)
        in if length parts \<noteq> length originalLines then replacementLines
           else
             (case locateParts merged parts 0 of
                None \<Rightarrow> semicolonSplitFallback merged (length originalLines) replacementLines
              | Some indices \<Rightarrow>
                  (case expandParts merged indices of
                     None \<Rightarrow> semicolonSplitFallback merged (length originalLines) replacementLines
                   | Some expanded \<Rightarrow>
                       if length expanded = length originalLines then expanded
                       else semicolonSplitFallback merged (length originalLines) replacementLines)))"

subsection \<open>Indentation restoration for paired replacements\<close>

definition restoreIndentForPairedReplacement :: "string list \<Rightarrow> string list \<Rightarrow> string list" where
  "restoreIndentForPairedReplacement originalLines replacementLines =
     (if length originalLines \<noteq> length replacementLines then replacementLines
      else
        map (\<lambda>(idx, ln).
               if length ln = 0 \<or> length (leadingWhitespace ln) > 0 then ln
               else
                 let indent = leadingWhitespace (originalLines ! idx) in
                 if length indent = 0 \<or> js_trim (originalLines ! idx) = js_trim ln then ln
                 else indent @ ln)
          (enumerate 0 replacementLines))"

definition autocorrectReplacementLines :: "string list \<Rightarrow> string list \<Rightarrow> string list" where
  "autocorrectReplacementLines originalLines replacementLines =
     (let next = replacementLines;
          next = maybeExpandSingleLineMerge originalLines next;
          next = restoreOldWrappedLines originalLines next;
          next = restoreIndentForPairedReplacement originalLines next
      in next)"

section \<open>Edits, errors and the helpers of other modules\<close>

text \<open>\<open>lines\<close> of an edit is a string or an array of strings.\<close>

datatype Payload = Text string | Lines "string list"

text \<open>The tagged union \<open>HashlineEdit\<close>: \<open>replace\<close> has \<open>pos\<close>, an optional \<open>end\<close> and
  \<open>lines\<close>; \<open>append\<close> and \<open>prepend\<close> have an optional \<open>pos\<close> and \<open>lines\<close>.\<close>

datatype HashlineEdit =
    Replace string "string option" Payload
  | Append "string option" Payload
  | Prepend "string option" Payload

text \<open>The failures of the engine. The program throws \<open>Error\<close> objects with a message; the
  constructors keep the kind and the data the message is built from:
  \<^item> \<open>InvalidRange s e\<close>: "Invalid range: start line s cannot be greater than end line e";
  \<^item> \<open>OverlappingRangeEdits i s e j s' e'\<close>: "Overlapping range edits detected: edit i
    (lines s-e) overlaps with edit j (lines s'-e'). ...";
  \<^item> \<open>EmptyInsertText op anchor\<close>: "op requires non-empty text" (with "(anchored)" and
    "for anchor" when there is one).
  The first three kinds are raised by the reference parser and validator.\<close>

datatype error =
    InvalidLineRefFormat string
  | LineOutOfRange string
  | StaleLineReference string
  | InvalidRange nat nat
  | OverlappingRangeEdits nat nat nat nat nat nat
  | EmptyInsertText string "string option"
  | HelperFailure string

record LineRef =
  line :: nat
  hash :: "string option"

text \<open>The modules \<open>./validation\<close> and \<open>./edit-text-normalization\<close> are parameters of the
  model: every definition below takes their functions in a record and every theorem is
  about whatever functions they are. A function that throws returns an \<^typ>\<open>error\<close>;
  \<open>validateLineRef\<close> and \<open>validateLineRefs\<close> return nothing or throw (\<open>Some e\<close>). The echo
  strippers receive \<open>lines[line - 1]\<close>, which is \<open>undefined\<close> (\<open>None\<close>) out of range.\<close>

record helpers =
  parseLineRef :: "string \<Rightarrow> error + LineRef"
  validateLineRef :: "string list \<Rightarrow> string \<Rightarrow> error option"
  validateLineRefs :: "string list \<Rightarrow> string list \<Rightarrow> error option"
  toNewLines :: "Payload \<Rightarrow> string list"
  restoreLeadingIndent :: "string \<Rightarrow> string \<Rightarrow> string"
  stripInsertAnchorEcho :: "string option \<Rightarrow> string list \<Rightarrow> error + string list"
  stripInsertBeforeEcho :: "string option \<Rightarrow> string list \<Rightarrow> error + string list"
  stripRangeBoundaryEcho :: "string list \<Rightarrow> nat \<Rightarrow> nat \<Rightarrow> string list \<Rightarrow> error + string list"

text \<open>JavaScript truthiness of an optional string: present and not empty.\<close>

definition truthy :: "string option \<Rightarrow> bool" where
  "truthy s = (case s of None \<Rightarrow> False | Some t \<Rightarrow> t \<noteq> [])"

section \<open>Preprocessing a batch: \<open>edit-sorting.ts\<close>\<close>

text \<open>The anchor line of an edit: a line number, or \<open>Number.NEGATIVE_INFINITY\<close>.
  \<open>edit.end ?? edit.pos\<close> takes \<open>end\<close> whenever it is present, the empty string too.\<close>

datatype LineNumber = NegativeInfinity | Finite nat

definition getEditLineNumber :: "helpers \<Rightarrow> HashlineEdit \<Rightarrow> error + LineNumber" where
  "getEditLineNumber H edit =
     (case edit of
        Replace pos end lns \<Rightarrow>
          map_sum id (\<lambda>r. Finite (line r))
            (parseLineRef H (case end of Some e \<Rightarrow> e | None \<Rightarrow> pos))
      | Append pos lns \<Rightarrow>
          (if truthy pos then map_sum id (\<lambda>r. Finite (line r)) (parseLineRef H (the pos))
           else Inr NegativeInfinity)
      | Prepend pos lns \<Rightarrow>
          (if truthy pos then map_sum id (\<lambda>r. Finite (line r)) (parseLineRef H (the pos))
           else Inr NegativeInfinity))"

definition collectLineRefs :: "HashlineEdit list \<Rightarrow> string list" where
  "collectLineRefs edits =
     concat (map (\<lambda>edit.
       case edit of
         Replace pos end lns \<Rightarrow> (if truthy end then [pos, the end] else [pos])
       | Append pos lns \<Rightarrow> (if truthy pos then [the pos] else [])
       | Prepend pos lns \<Rightarrow> (if truthy pos then [the pos] else [])) edits)"

record Range =
  range_start :: nat
  range_end :: nat
  range_idx :: nat

text \<open>The first loop of \<open>detectOverlappingRanges\<close>: the ranged replaces with their
  positions in the array; a reference that does not parse throws.\<close>

fun collectRanges :: "helpers \<Rightarrow> nat \<Rightarrow> HashlineEdit list \<Rightarrow> error + Range list" where
  "collectRanges H i [] = Inr []"
| "collectRanges H i (edit # edits) =
     (case edit of
        Replace pos end lns \<Rightarrow>
          (if \<not> truthy end then collectRanges H (i + 1) edits
           else
             (case parseLineRef H pos of
                Inl e \<Rightarrow> Inl e
              | Inr s \<Rightarrow>
                  (case parseLineRef H (the end) of
                     Inl e \<Rightarrow> Inl e
                   | Inr e \<Rightarrow>
                       map_sum id ((#) \<lparr>range_start = line s, range_end = line e, range_idx = i\<rparr>)
                         (collectRanges H (i + 1) edits))))
      | _ \<Rightarrow> collectRanges H (i + 1) edits)"

definition compareRanges :: "Range \<Rightarrow> Range \<Rightarrow> int" where
  "compareRanges a b =
     (if int (range_start a) - int (range_start b) \<noteq> 0
      then int (range_start a) - int (range_start b)
      else int (range_end a) - int (range_end b))"

text \<open>The second loop: the first adjacent pair of the sorted ranges that touches.\<close>

fun firstOverlap :: "Range list \<Rightarrow> error option" where
  "firstOverlap (prv # cur # rest) =
     (if range_start cur \<le> range_end prv
      then Some (OverlappingRangeEdits (range_idx prv + 1) (range_start prv) (range_end prv)
                   (range_idx cur + 1) (range_start cur) (range_end cur))
      else firstOverlap (cur # rest))"
| "firstOverlap _ = None"

text \<open>\<open>detectOverlappingRanges\<close> returns the message or \<open>null\<close>, or throws from the parser:
  \<open>Inl\<close> is the exception, \<open>Inr (Some e)\<close> the message, \<open>Inr None\<close> is \<open>null\<close>.\<close>

definition detectOverlappingRanges :: "helpers \<Rightarrow> HashlineEdit list \<Rightarrow> error + error option" where
  "detectOverlappingRanges H edits =
     (case collectRanges H 0 edits of
        Inl e \<Rightarrow> Inl e
      | Inr ranges \<Rightarrow>
          if length ranges < 2 then Inr None
          else Inr (firstOverlap (sort_cmp compareRanges ranges)))"

definition normalizeEditPayload :: "helpers \<Rightarrow> Payload \<Rightarrow> string" where
  "normalizeEditPayload H payload = js_join [CHR 0x0A] (toNewLines H payload)"

definition buildDedupeKey :: "helpers \<Rightarrow> HashlineEdit \<Rightarrow> string" where
  "buildDedupeKey H edit =
     (case edit of
        Replace pos end lns \<Rightarrow>
          ''replace|'' @ pos @ ''|'' @ (case end of Some e \<Rightarrow> e | None \<Rightarrow> []) @ ''|''
            @ normalizeEditPayload H lns
      | Append pos lns \<Rightarrow>
          ''append|'' @ (case pos of Some p \<Rightarrow> p | None \<Rightarrow> []) @ ''|''
            @ normalizeEditPayload H lns
      | Prepend pos lns \<Rightarrow>
          ''prepend|'' @ (case pos of Some p \<Rightarrow> p | None \<Rightarrow> []) @ ''|''
            @ normalizeEditPayload H lns)"

record DedupeResult =
  dedupe_edits :: "HashlineEdit list"
  dedupe_count :: nat

text \<open>The loop of \<open>dedupeEdits\<close>, with its three variables \<open>seen\<close>, \<open>deduped\<close> and
  \<open>deduplicatedEdits\<close>.\<close>

fun dedupeLoop ::
  "helpers \<Rightarrow> string set \<Rightarrow> HashlineEdit list \<Rightarrow> nat \<Rightarrow> HashlineEdit list \<Rightarrow> DedupeResult" where
  "dedupeLoop H seen deduped n [] = \<lparr>dedupe_edits = deduped, dedupe_count = n\<rparr>"
| "dedupeLoop H seen deduped n (edit # edits) =
     (let key = buildDedupeKey H edit in
      if key \<in> seen then dedupeLoop H seen deduped (n + 1) edits
      else dedupeLoop H (insert key seen) (deduped @ [edit]) n edits)"

definition dedupeEdits :: "helpers \<Rightarrow> HashlineEdit list \<Rightarrow> DedupeResult" where
  "dedupeEdits H edits = dedupeLoop H {} [] 0 edits"

section \<open>Applying edits\<close>

record EditApplyOptions =
  skipValidation :: "bool option"

definition shouldValidate :: "EditApplyOptions option \<Rightarrow> bool" where
  "shouldValidate options =
     (case options of None \<Rightarrow> True | Some opts \<Rightarrow> skipValidation opts \<noteq> Some True)"

text \<open>The loop of \<open>arraysEqual\<close> over the indices of \<open>a\<close>.\<close>

definition arraysEqual :: "string list \<Rightarrow> string list \<Rightarrow> bool" where
  "arraysEqual a b =
     (if length a \<noteq> length b then False
      else list_all (\<lambda>i. a ! i = b ! i) [0 ..< length a])"

text \<open>\<open>corrected.map((entry, idx) => idx !== 0 ? entry : restoreLeadingIndent(template, entry))\<close>\<close>

definition restoreFirst :: "helpers \<Rightarrow> string \<Rightarrow> string list \<Rightarrow> string list" where
  "restoreFirst H template corrected =
     map (\<lambda>(idx, entry). if idx \<noteq> 0 then entry else restoreLeadingIndent H template entry)
       (enumerate 0 corrected)"

definition applySetLine ::
  "helpers \<Rightarrow> string list \<Rightarrow> string \<Rightarrow> Payload \<Rightarrow> EditApplyOptions option \<Rightarrow> error + string list" where
  "applySetLine H lns anchor newText options =
     (case (if shouldValidate options then validateLineRef H lns anchor else None) of
        Some e \<Rightarrow> Inl e
      | None \<Rightarrow>
          (case parseLineRef H anchor of
             Inl e \<Rightarrow> Inl e
           | Inr r \<Rightarrow>
               let result = lns;
                   originalLine = (case js_index lns (int (line r) - 1) of Some l \<Rightarrow> l | None \<Rightarrow> []);
                   corrected = autocorrectReplacementLines [originalLine] (toNewLines H newText);
                   replacement = restoreFirst H originalLine corrected
               in Inr (js_splice result (int (line r) - 1) 1 replacement)))"

definition applyReplaceLines ::
  "helpers \<Rightarrow> string list \<Rightarrow> string \<Rightarrow> string \<Rightarrow> Payload \<Rightarrow> EditApplyOptions option \<Rightarrow>
   error + string list" where
  "applyReplaceLines H lns startAnchor endAnchor newText options =
     (case (if shouldValidate options
            then (case validateLineRef H lns startAnchor of
                    Some e \<Rightarrow> Some e
                  | None \<Rightarrow> validateLineRef H lns endAnchor)
            else None) of
        Some e \<Rightarrow> Inl e
      | None \<Rightarrow>
          (case parseLineRef H startAnchor of
             Inl e \<Rightarrow> Inl e
           | Inr rs \<Rightarrow>
               (case parseLineRef H endAnchor of
                  Inl e \<Rightarrow> Inl e
                | Inr re \<Rightarrow>
                    let startLine = line rs; endLine = line re in
                    if startLine > endLine then Inl (InvalidRange startLine endLine)
                    else
                      let result = lns;
                          originalRange = js_slice lns (int startLine - 1) (int endLine)
                      in (case stripRangeBoundaryEcho H lns startLine endLine (toNewLines H newText) of
                            Inl e \<Rightarrow> Inl e
                          | Inr stripped \<Rightarrow>
                              let corrected = autocorrectReplacementLines originalRange stripped;
                                  restored =
                                    restoreFirst H
                                      (case js_index lns (int startLine - 1) of Some l \<Rightarrow> l | None \<Rightarrow> [])
                                      corrected
                              in Inr (js_splice result (int startLine - 1)
                                        (int endLine - int startLine + 1) restored)))))"

definition applyInsertAfter ::
  "helpers \<Rightarrow> string list \<Rightarrow> string \<Rightarrow> Payload \<Rightarrow> EditApplyOptions option \<Rightarrow> error + string list" where
  "applyInsertAfter H lns anchor txt options =
     (case (if shouldValidate options then validateLineRef H lns anchor else None) of
        Some e \<Rightarrow> Inl e
      | None \<Rightarrow>
          (case parseLineRef H anchor of
             Inl e \<Rightarrow> Inl e
           | Inr r \<Rightarrow>
               let result = lns in
               (case stripInsertAnchorEcho H (js_index lns (int (line r) - 1)) (toNewLines H txt) of
                  Inl e \<Rightarrow> Inl e
                | Inr newLines \<Rightarrow>
                    if length newLines = 0 then Inl (EmptyInsertText ''append (anchored)'' (Some anchor))
                    else Inr (js_splice result (int (line r)) 0 newLines))))"

definition applyInsertBefore ::
  "helpers \<Rightarrow> string list \<Rightarrow> string \<Rightarrow> Payload \<Rightarrow> EditApplyOptions option \<Rightarrow> error + string list" where
  "applyInsertBefore H lns anchor txt options =
     (case (if shouldValidate options then validateLineRef H lns anchor else None) of
        Some e \<Rightarrow> Inl e
      | None \<Rightarrow>
          (case parseLineRef H anchor of
             Inl e \<Rightarrow> Inl e
           | Inr r \<Rightarrow>
               let result = lns in
               (case stripInsertBeforeEcho H (js_index lns (int (line r) - 1)) (toNewLines H txt) of
                  Inl e \<Rightarrow> Inl e
                | Inr newLines \<Rightarrow>
                    if length newLines = 0 then Inl (EmptyInsertText ''prepend (anchored)'' (Some anchor))
                    else Inr (js_splice result (int (line r) - 1) 0 newLines))))"

definition applyAppend :: "helpers \<Rightarrow> string list \<Rightarrow> Payload \<Rightarrow> error + string list" where
  "applyAppend H lns txt =
     (let normalized = toNewLines H txt in
      if length normalized = 0 then Inl (EmptyInsertText ''append'' None)
      else if length lns = 1 \<and> lns ! 0 = [] then Inr normalized
      else Inr (lns @ normalized))"

definition applyPrepend :: "helpers \<Rightarrow> string list \<Rightarrow> Payload \<Rightarrow> error + string list" where
  "applyPrepend H lns txt =
     (let normalized = toNewLines H txt in
      if length normalized = 0 then Inl (EmptyInsertText ''prepend'' None)
      else if length lns = 1 \<and> lns ! 0 = [] then Inr normalized
      else Inr (normalized @ lns))"

section \<open>The batch orchestrator\<close>

record HashlineApplyReport =
  content :: string
  noopEdits :: nat
  deduplicatedEdits :: nat

definition editPrecedence :: "HashlineEdit \<Rightarrow> int" where
  "editPrecedence edit = (case edit of Replace _ _ _ \<Rightarrow> 0 | Append _ _ \<Rightarrow> 1 | Prepend _ _ \<Rightarrow> 2)"

text \<open>The sign of \<open>lineB - lineA\<close>, for two different line numbers: a difference with
  one infinite operand is infinite, and a sort reads only its sign.\<close>

definition lineDifference :: "LineNumber \<Rightarrow> LineNumber \<Rightarrow> int" where
  "lineDifference lineB lineA =
     (case (lineB, lineA) of
        (Finite b, Finite a) \<Rightarrow> int b - int a
      | (Finite b, NegativeInfinity) \<Rightarrow> 1
      | (NegativeInfinity, Finite a) \<Rightarrow> - 1
      | (NegativeInfinity, NegativeInfinity) \<Rightarrow> 0)"

text \<open>The comparator of the sort, on edits paired with their anchor lines.\<close>

definition compareEdits :: "LineNumber \<times> HashlineEdit \<Rightarrow> LineNumber \<times> HashlineEdit \<Rightarrow> int" where
  "compareEdits a b =
     (let lineA = fst a; lineB = fst b in
      if lineB \<noteq> lineA then lineDifference lineB lineA
      else editPrecedence (snd a) - editPrecedence (snd b))"

fun lineNumbers :: "helpers \<Rightarrow> HashlineEdit list \<Rightarrow> error + LineNumber list" where
  "lineNumbers H [] = Inr []"
| "lineNumbers H (edit # edits) =
     (case getEditLineNumber H edit of
        Inl e \<Rightarrow> Inl e
      | Inr n \<Rightarrow> map_sum id ((#) n) (lineNumbers H edits))"

text \<open>\<open>[...dedupeResult.edits].sort(...)\<close>. An array of fewer than two edits is sorted
  without a call of the comparator. With two or more, the comparator reads the anchor line
  of every edit, and the sort throws when a reference does not parse; when several do not,
  the model reports the first of them in the order of the batch.\<close>

definition sortEdits :: "helpers \<Rightarrow> HashlineEdit list \<Rightarrow> error + HashlineEdit list" where
  "sortEdits H edits =
     (if length edits < 2 then Inr edits
      else
        (case lineNumbers H edits of
           Inl e \<Rightarrow> Inl e
         | Inr ns \<Rightarrow> Inr (map snd (sort_cmp compareEdits (zip ns edits)))))"

text \<open>One iteration of the loop over the sorted edits: the candidate \<open>next\<close>.\<close>

definition applyEdit :: "helpers \<Rightarrow> string list \<Rightarrow> HashlineEdit \<Rightarrow> error + string list" where
  "applyEdit H lns edit =
     (case edit of
        Replace pos end payload \<Rightarrow>
          (if truthy end
           then applyReplaceLines H lns pos (the end) payload (Some \<lparr>skipValidation = Some True\<rparr>)
           else applySetLine H lns pos payload (Some \<lparr>skipValidation = Some True\<rparr>))
      | Append pos payload \<Rightarrow>
          (if truthy pos
           then applyInsertAfter H lns (the pos) payload (Some \<lparr>skipValidation = Some True\<rparr>)
           else applyAppend H lns payload)
      | Prepend pos payload \<Rightarrow>
          (if truthy pos
           then applyInsertBefore H lns (the pos) payload (Some \<lparr>skipValidation = Some True\<rparr>)
           else applyPrepend H lns payload))"

text \<open>The loop, with its two variables \<open>lines\<close> and \<open>noopEdits\<close>.\<close>

fun applyEdits ::
  "helpers \<Rightarrow> string list \<Rightarrow> nat \<Rightarrow> HashlineEdit list \<Rightarrow> error + string list \<times> nat" where
  "applyEdits H lns noop [] = Inr (lns, noop)"
| "applyEdits H lns noop (edit # edits) =
     (case applyEdit H lns edit of
        Inl e \<Rightarrow> Inl e
      | Inr next \<Rightarrow>
          if arraysEqual next lns then applyEdits H lns (noop + 1) edits
          else applyEdits H next noop edits)"

definition applyHashlineEditsWithReport ::
  "helpers \<Rightarrow> string \<Rightarrow> HashlineEdit list \<Rightarrow> error + HashlineApplyReport" where
  "applyHashlineEditsWithReport H text edits =
     (if length edits = 0
      then Inr \<lparr>content = text, noopEdits = 0, deduplicatedEdits = 0\<rparr>
      else
        let dedupeResult = dedupeEdits H edits in
        case sortEdits H (dedupe_edits dedupeResult) of
          Inl e \<Rightarrow> Inl e
        | Inr sortedEdits \<Rightarrow>
            let lns = (if length text = 0 then [] else split_lines text);
                refs = collectLineRefs sortedEdits
            in (case validateLineRefs H lns refs of
                  Some e \<Rightarrow> Inl e
                | None \<Rightarrow>
                    (case detectOverlappingRanges H sortedEdits of
                       Inl e \<Rightarrow> Inl e
                     | Inr (Some overlapError) \<Rightarrow> Inl overlapError
                     | Inr None \<Rightarrow>
                         (case applyEdits H lns 0 sortedEdits of
                            Inl e \<Rightarrow> Inl e
                          | Inr (final, noop) \<Rightarrow>
                              Inr \<lparr>content = js_join [CHR 0x0A] final,
                                   noopEdits = noop,
                                   deduplicatedEdits = dedupe_count dedupeResult\<rparr>))))"

definition applyHashlineEdits :: "helpers \<Rightarrow> string \<Rightarrow> HashlineEdit list \<Rightarrow> error + string" where
  "applyHashlineEdits H text edits = map_sum id content (applyHashlineEditsWithReport H text edits)"

section \<open>An instance of the helpers\<close>

text \<open>The theorems below hold for every record of helpers. To run the engine on concrete
  inputs, the following functions give one instance.\<close>

definition isDigit :: "char \<Rightarrow> bool" where
  "isDigit c = (48 \<le> (of_char c :: nat) \<and> (of_char c :: nat) \<le> 57)"

definition digitsToNat :: "string \<Rightarrow> nat" where
  "digitsToNat ds = foldl (\<lambda>n c. 10 * n + (of_char c - 48)) 0 ds"

definition hashAlphabet :: string where
  "hashAlphabet = ''ZPMQVRWSNKTXJBYH''"

text \<open>Modelled from the spec: \<open>parseLineRef\<close> of \<open>validation.ts\<close>, which is missing. It
  accepts exactly digits, or digits, \<open>#\<close> and two characters of the alphabet; any other
  shape is \<open>InvalidLineRefFormat\<close>.\<close>

definition spec_parseLineRef :: "string \<Rightarrow> error + LineRef" where
  "spec_parseLineRef ref =
     (let ds = takeWhile isDigit ref; rest = dropWhile isDigit ref in
      if ds = [] then Inl (InvalidLineRefFormat ref)
      else if rest = [] then Inr \<lparr>line = digitsToNat ds, hash = None\<rparr>
      else if length rest = 3 \<and> hd rest = CHR ''#'' \<and> list_all (\<lambda>c. c \<in> set hashAlphabet) (tl rest)
      then Inr \<lparr>line = digitsToNat ds, hash = Some (tl rest)\<rparr>
      else Inl (InvalidLineRefFormat ref))"

text \<open>Modelled from the spec: \<open>validateLineRef\<close> of \<open>validation.ts\<close>, which is missing,
  over a hash function (\<open>computeLineHash\<close> of \<open>hash-computation.ts\<close>, missing as well).
  Parse; \<open>LineOutOfRange\<close> if the line is below 1 or beyond the last line;
  \<open>StaleLineReference\<close> if the reference carries a hash and the hash of the current line
  differs; a reference with no hash passes on the bounds alone.\<close>

definition spec_validateLineRef ::
  "(nat \<Rightarrow> string \<Rightarrow> string) \<Rightarrow> string list \<Rightarrow> string \<Rightarrow> error option" where
  "spec_validateLineRef computeLineHash lns ref =
     (case spec_parseLineRef ref of
        Inl e \<Rightarrow> Some e
      | Inr r \<Rightarrow>
          if line r < 1 \<or> line r > length lns then Some (LineOutOfRange ref)
          else
            (case hash r of
               None \<Rightarrow> None
             | Some h \<Rightarrow>
                 if computeLineHash (line r) (lns ! (line r - 1)) \<noteq> h
                 then Some (StaleLineReference ref) else None))"

text \<open>Modelled from the spec: \<open>validateLineRefs\<close> of \<open>validation.ts\<close>, which is missing.
  It applies \<open>validateLineRef\<close> to every reference and fails on the first violation.\<close>

fun spec_validateLineRefs ::
  "(nat \<Rightarrow> string \<Rightarrow> string) \<Rightarrow> string list \<Rightarrow> string list \<Rightarrow> error option" where
  "spec_validateLineRefs computeLineHash lns [] = None"
| "spec_validateLineRefs computeLineHash lns (ref # refs) =
     (case spec_validateLineRef computeLineHash lns ref of
        Some e \<Rightarrow> Some e
      | None \<Rightarrow> spec_validateLineRefs computeLineHash lns refs)"

text \<open>Modelled from the spec: \<open>toNewLines\<close> of \<open>edit-text-normalization.ts\<close>, which is
  missing. The payload is a single string, split on newline, or an already split sequence
  of strings.\<close>

definition spec_toNewLines :: "Payload \<Rightarrow> string list" where
  "spec_toNewLines payload = (case payload of Text s \<Rightarrow> split_lines s | Lines ls \<Rightarrow> ls)"

text \<open>Modelled from the spec: \<open>restoreLeadingIndent\<close> of \<open>edit-text-normalization.ts\<close>,
  which is missing. It restores the leading indentation of the original line onto a
  corrected line that has none.\<close>

definition spec_restoreLeadingIndent :: "string \<Rightarrow> string \<Rightarrow> string" where
  "spec_restoreLeadingIndent template entry =
     (if entry = [] \<or> leadingWhitespace entry \<noteq> [] then entry
      else leadingWhitespace template @ entry)"

text \<open>Modelled from the spec: the echo strippers of \<open>edit-text-normalization.ts\<close>, which
  is missing. An insertion after a line drops a leading line that echoes the anchor, an
  insertion before a line drops a trailing one, and a range replacement drops the lines
  that echo the line before and the line after the range.\<close>

definition spec_stripInsertAnchorEcho :: "string option \<Rightarrow> string list \<Rightarrow> error + string list" where
  "spec_stripInsertAnchorEcho anchorLine newLines =
     (case anchorLine of
        None \<Rightarrow> Inl (HelperFailure ''anchor line is undefined'')
      | Some a \<Rightarrow>
          if length newLines > 1 \<and> stripAllWhitespace (hd newLines) = stripAllWhitespace a
          then Inr (tl newLines) else Inr newLines)"

definition spec_stripInsertBeforeEcho :: "string option \<Rightarrow> string list \<Rightarrow> error + string list" where
  "spec_stripInsertBeforeEcho anchorLine newLines =
     (case anchorLine of
        None \<Rightarrow> Inl (HelperFailure ''anchor line is undefined'')
      | Some a \<Rightarrow>
          if length newLines > 1 \<and> stripAllWhitespace (last newLines) = stripAllWhitespace a
          then Inr (butlast newLines) else Inr newLines)"

definition spec_stripRangeBoundaryEcho ::
  "string list \<Rightarrow> nat \<Rightarrow> nat \<Rightarrow> string list \<Rightarrow> error + string list" where
  "spec_stripRangeBoundaryEcho lns startLine endLine newLines =
     (let lineAbove = js_index lns (int startLine - 2);
          lineBelow = js_index lns (int endLine);
          out1 = (if length newLines > 1 \<and> lineAbove \<noteq> None
                     \<and> stripAllWhitespace (hd newLines) = stripAllWhitespace (the lineAbove)
                  then tl newLines else newLines);
          out2 = (if length out1 > 1 \<and> lineBelow \<noteq> None
                     \<and> stripAllWhitespace (last out1) = stripAllWhitespace (the lineBelow)
                  then butlast out1 else out1)
      in Inr out2)"

definition spec_helpers :: "(nat \<Rightarrow> string \<Rightarrow> string) \<Rightarrow> helpers" where
  "spec_helpers computeLineHash =
     \<lparr>parseLineRef = spec_parseLineRef,
      validateLineRef = spec_validateLineRef computeLineHash,
      validateLineRefs = spec_validateLineRefs computeLineHash,
      toNewLines = spec_toNewLines,
      restoreLeadingIndent = spec_restoreLeadingIndent,
      stripInsertAnchorEcho = spec_stripInsertAnchorEcho,
      stripInsertBeforeEcho = spec_stripInsertBeforeEcho,
      stripRangeBoundaryEcho = spec_stripRangeBoundaryEcho\<rparr>"

text \<open>The concrete runs below cite lines by number only, so the hash function is never
  called on them; this one gives every line the code \<open>ZZ\<close>.\<close>

definition constantHash :: "nat \<Rightarrow> string \<Rightarrow> string" where
  "constantHash n s = ''ZZ''"

definition H0 :: helpers where
  "H0 = spec_helpers constantHash"

section \<open>Notions used in the statements\<close>

text \<open>A comparator is a total preorder when \<open>cmp x y \<le> 0\<close> is total and transitive.\<close>

definition total_preorder_cmp :: "('a \<Rightarrow> 'a \<Rightarrow> int) \<Rightarrow> bool" where
  "total_preorder_cmp cmp =
     ((\<forall>x y. cmp x y \<le> 0 \<or> cmp y x \<le> 0) \<and>
      (\<forall>x y z. cmp x y \<le> 0 \<and> cmp y z \<le> 0 \<longrightarrow> cmp x z \<le> 0))"

text \<open>The order of anchor lines: \<open>lineAtLeast a b\<close> is \<open>a \<ge> b\<close>, with negative infinity
  below every line number.\<close>

definition lineAtLeast :: "LineNumber \<Rightarrow> LineNumber \<Rightarrow> bool" where
  "lineAtLeast a b =
     (case b of
        NegativeInfinity \<Rightarrow> True
      | Finite n \<Rightarrow> (case a of NegativeInfinity \<Rightarrow> False | Finite m \<Rightarrow> n \<le> m))"

text \<open>A whole-file edit: an \<open>append\<close> or \<open>prepend\<close> whose \<open>pos\<close> is absent (or empty).\<close>

definition isWholeFile :: "HashlineEdit \<Rightarrow> bool" where
  "isWholeFile edit =
     (case edit of
        Replace _ _ _ \<Rightarrow> False
      | Append pos _ \<Rightarrow> \<not> truthy pos
      | Prepend pos _ \<Rightarrow> \<not> truthy pos)"

text \<open>The line sequence the orchestrator starts from:
  \<open>content.length === 0 ? [] : content.split("\n")\<close>.\<close>

definition snapshotLines :: "string \<Rightarrow> string list" where
  "snapshotLines text = (if length text = 0 then [] else split_lines text)"

text \<open>The anchors of a ranged replace; every other edit has none.\<close>

definition rangedAnchors :: "HashlineEdit \<Rightarrow> (string \<times> string) option" where
  "rangedAnchors edit =
     (case edit of
        Replace pos end lns \<Rightarrow> (if truthy end then Some (pos, the end) else None)
      | Append pos lns \<Rightarrow> None
      | Prepend pos lns \<Rightarrow> None)"

text \<open>The parts a deduplication key is made of, in the words of the specification: the
  operation, the anchor references (an absent \<open>end\<close> or \<open>pos\<close> counts as the empty string)
  and the payload, normalized to lines and joined by newline.\<close>

definition editOp :: "HashlineEdit \<Rightarrow> string" where
  "editOp edit =
     (case edit of Replace _ _ _ \<Rightarrow> ''replace'' | Append _ _ \<Rightarrow> ''append'' | Prepend _ _ \<Rightarrow> ''prepend'')"

definition anchorRefs :: "HashlineEdit \<Rightarrow> string list" where
  "anchorRefs edit =
     (case edit of
        Replace pos end _ \<Rightarrow> [pos, (case end of Some e \<Rightarrow> e | None \<Rightarrow> [])]
      | Append pos _ \<Rightarrow> [case pos of Some p \<Rightarrow> p | None \<Rightarrow> []]
      | Prepend pos _ \<Rightarrow> [case pos of Some p \<Rightarrow> p | None \<Rightarrow> []])"

definition editPayload :: "HashlineEdit \<Rightarrow> Payload" where
  "editPayload edit =
     (case edit of Replace _ _ lns \<Rightarrow> lns | Append _ lns \<Rightarrow> lns | Prepend _ lns \<Rightarrow> lns)"

definition joinedPayload :: "helpers \<Rightarrow> HashlineEdit \<Rightarrow> string" where
  "joinedPayload H edit = js_join [CHR 0x0A] (toNewLines H (editPayload edit))"

section \<open>The edit functions on a store of arrays\<close>

text \<open>To speak about mutation, the arrays of strings are objects in a store: an address
  is an index into the list of all arrays allocated so far. \<open>[...xs]\<close> allocates a new
  array, \<open>result.splice(...)\<close> writes to the array at the address \<open>result\<close>, and a function
  returns the address of its result. The functions of the other modules read the arrays
  they are given and are functions of their contents; the payload and the temporaries
  (\<open>corrected\<close>, \<open>replacement\<close>, ...) are values.\<close>

type_synonym addr = nat
type_synonym array_store = "string list list"

definition store_alloc :: "array_store \<Rightarrow> string list \<Rightarrow> addr \<times> array_store" where
  "store_alloc st xs = (length st, st @ [xs])"

definition heap_applySetLine ::
  "helpers \<Rightarrow> array_store \<Rightarrow> addr \<Rightarrow> string \<Rightarrow> Payload \<Rightarrow> EditApplyOptions option \<Rightarrow>
   (error + addr) \<times> array_store" where
  "heap_applySetLine H st lns anchor newText options =
     (case (if shouldValidate options then validateLineRef H (st ! lns) anchor else None) of
        Some e \<Rightarrow> (Inl e, st)
      | None \<Rightarrow>
          (case parseLineRef H anchor of
             Inl e \<Rightarrow> (Inl e, st)
           | Inr r \<Rightarrow>
               let (result, st1) = store_alloc st (st ! lns);
                   originalLine =
                     (case js_index (st1 ! lns) (int (line r) - 1) of Some l \<Rightarrow> l | None \<Rightarrow> []);
                   corrected = autocorrectReplacementLines [originalLine] (toNewLines H newText);
                   replacement = restoreFirst H originalLine corrected;
                   st2 = st1[result := js_splice (st1 ! result) (int (line r) - 1) 1 replacement]
               in (Inr result, st2)))"

definition heap_applyReplaceLines ::
  "helpers \<Rightarrow> array_store \<Rightarrow> addr \<Rightarrow> string \<Rightarrow> string \<Rightarrow> Payload \<Rightarrow> EditApplyOptions option \<Rightarrow>
   (error + addr) \<times> array_store" where
  "heap_applyReplaceLines H st lns startAnchor endAnchor newText options =
     (case (if shouldValidate options
            then (case validateLineRef H (st ! lns) startAnchor of
                    Some e \<Rightarrow> Some e
                  | None \<Rightarrow> validateLineRef H (st ! lns) endAnchor)
            else None) of
        Some e \<Rightarrow> (Inl e, st)
      | None \<Rightarrow>
          (case parseLineRef H startAnchor of
             Inl e \<Rightarrow> (Inl e, st)
           | Inr rs \<Rightarrow>
               (case parseLineRef H endAnchor of
                  Inl e \<Rightarrow> (Inl e, st)
                | Inr re \<Rightarrow>
                    let startLine = line rs; endLine = line re in
                    if startLine > endLine then (Inl (InvalidRange startLine endLine), st)
                    else
                      let (result, st1) = store_alloc st (st ! lns);
                          originalRange = js_slice (st1 ! lns) (int startLine - 1) (int endLine)
                      in (case stripRangeBoundaryEcho H (st1 ! lns) startLine endLine
                                 (toNewLines H newText) of
                            Inl e \<Rightarrow> (Inl e, st1)
                          | Inr stripped \<Rightarrow>
                              let corrected = autocorrectReplacementLines originalRange stripped;
                                  restored =
                                    restoreFirst H
                                      (case js_index (st1 ! lns) (int startLine - 1) of
                                         Some l \<Rightarrow> l | None \<Rightarrow> [])
                                      corrected;
                                  st2 = st1[result := js_splice (st1 ! result) (int startLine - 1)
                                                        (int endLine - int startLine + 1) restored]
                              in (Inr result, st2)))))"

definition heap_applyInsertAfter ::
  "helpers \<Rightarrow> array_store \<Rightarrow> addr \<Rightarrow> string \<Rightarrow> Payload \<Rightarrow> EditApplyOptions option \<Rightarrow>
   (error + addr) \<times> array_store" where
  "heap_applyInsertAfter H st lns anchor txt options =
     (case (if shouldValidate options then validateLineRef H (st ! lns) anchor else None) of
        Some e \<Rightarrow> (Inl e, st)
      | None \<Rightarrow>
          (case parseLineRef H anchor of
             Inl e \<Rightarrow> (Inl e, st)
           | Inr r \<Rightarrow>
               let (result, st1) = store_alloc st (st ! lns) in
               (case stripInsertAnchorEcho H (js_index (st1 ! lns) (int (line r) - 1))
                       (toNewLines H txt) of
                  Inl e \<Rightarrow> (Inl e, st1)
                | Inr newLines \<Rightarrow>
                    if length newLines = 0
                    then (Inl (EmptyInsertText ''append (anchored)'' (Some anchor)), st1)
                    else (Inr result,
                          st1[result := js_splice (st1 ! result) (int (line r)) 0 newLines]))))"

definition heap_applyInsertBefore ::
  "helpers \<Rightarrow> array_store \<Rightarrow> addr \<Rightarrow> string \<Rightarrow> Payload \<Rightarrow> EditApplyOptions option \<Rightarrow>
   (error + addr) \<times> array_store" where
  "heap_applyInsertBefore H st lns anchor txt options =
     (case (if shouldValidate options then validateLineRef H (st ! lns) anchor else None) of
        Some e \<Rightarrow> (Inl e, st)
      | None \<Rightarrow>
          (case parseLineRef H anchor of
             Inl e \<Rightarrow> (Inl e, st)
           | Inr r \<Rightarrow>
               let (result, st1) = store_alloc st (st ! lns) in
               (case stripInsertBeforeEcho H (js_index (st1 ! lns) (int (line r) - 1))
                       (toNewLines H txt) of
                  Inl e \<Rightarrow> (Inl e, st1)
                | Inr newLines \<Rightarrow>
                    if length newLines = 0
                    then (Inl (EmptyInsertText ''prepend (anchored)'' (Some anchor)), st1)
                    else (Inr result,
                          st1[result := js_splice (st1 ! result) (int (line r) - 1) 0 newLines]))))"

definition heap_applyAppend ::
  "helpers \<Rightarrow> array_store \<Rightarrow> addr \<Rightarrow> Payload \<Rightarrow> (error + addr) \<times> array_store" where
  "heap_applyAppend H st lns txt =
     (let normalized = toNewLines H txt in
      if length normalized = 0 then (Inl (EmptyInsertText ''append'' None), st)
      else if length (st ! lns) = 1 \<and> (st ! lns) ! 0 = []
      then (let (result, st1) = store_alloc st normalized in (Inr result, st1))
      else (let (result, st1) = store_alloc st ((st ! lns) @ normalized) in (Inr result, st1)))"

definition heap_applyPrepend ::
  "helpers \<Rightarrow> array_store \<Rightarrow> addr \<Rightarrow> Payload \<Rightarrow> (error + addr) \<times> array_store" where
  "heap_applyPrepend H st lns txt =
     (let normalized = toNewLines H txt in
      if length normalized = 0 then (Inl (EmptyInsertText ''prepend'' None), st)
      else if length (st ! lns) = 1 \<and> (st ! lns) ! 0 = []
      then (let (result, st1) = store_alloc st normalized in (Inr result, st1))
      else (let (result, st1) = store_alloc st (normalized @ (st ! lns)) in (Inr result, st1)))"

text \<open>What a call leaves behind: the store it started from is a prefix of the store it ends
  with, so every array that existed, the input among them, has the elements it had; an
  error is the error of the function on values; and a returned address is not an address
  of the old store, and holds the result of the function on values.\<close>

definition returns_fresh ::
  "array_store \<Rightarrow> addr \<Rightarrow> (error + addr) \<times> array_store \<Rightarrow> error + string list \<Rightarrow> bool" where
  "returns_fresh st lns out expected =
     (snd out ! lns = st ! lns \<and>
      take (length st) (snd out) = st \<and>
      (case fst out of
         Inl e \<Rightarrow> expected = Inl e
       | Inr r \<Rightarrow> length st \<le> r \<and> r < length (snd out) \<and> expected = Inr (snd out ! r)))"

section \<open>The spans of the stale-wrap restoration, in the words of the specification\<close>

text \<open>A span is a pair of a start index and a length. \<open>spanIndices\<close> lists the spans of 2
  to 10 lines inside the replacement. The canonical form of a span is the concatenation
  of its lines with all white space removed.\<close>

definition spanLines :: "string list \<Rightarrow> nat \<times> nat \<Rightarrow> string list" where
  "spanLines replacementLines sl = take (snd sl) (drop (fst sl) replacementLines)"

definition spanCanonical :: "string list \<Rightarrow> nat \<times> nat \<Rightarrow> string" where
  "spanCanonical replacementLines sl = stripAllWhitespace (concat (spanLines replacementLines sl))"

definition matchingOriginals :: "string list \<Rightarrow> string \<Rightarrow> string list" where
  "matchingOriginals originalLines canonical =
     filter (\<lambda>ln. stripAllWhitespace ln = canonical) originalLines"

text \<open>A span qualifies when none of its lines is blank, its canonical form is that of
  exactly one original line, and the canonical form has at least 6 characters.\<close>

definition qualifies :: "string list \<Rightarrow> string list \<Rightarrow> nat \<times> nat \<Rightarrow> bool" where
  "qualifies originalLines replacementLines sl =
     (list_all (\<lambda>ln. js_trim ln \<noteq> []) (spanLines replacementLines sl) \<and>
      length (matchingOriginals originalLines (spanCanonical replacementLines sl)) = 1 \<and>
      6 \<le> length (spanCanonical replacementLines sl))"

text \<open>A qualifying span is unique when it is the only qualifying span of the replacement
  with its canonical form.\<close>

definition uniqueSpan :: "string list \<Rightarrow> string list \<Rightarrow> nat \<times> nat \<Rightarrow> bool" where
  "uniqueSpan originalLines replacementLines sl =
     (qualifies originalLines replacementLines sl \<and>
      length (filter (\<lambda>other. qualifies originalLines replacementLines other \<and>
                        spanCanonical replacementLines other = spanCanonical replacementLines sl)
                (spanIndices (length replacementLines))) = 1)"

definition uniqueSpans :: "string list \<Rightarrow> string list \<Rightarrow> (nat \<times> nat) list" where
  "uniqueSpans originalLines replacementLines =
     filter (uniqueSpan originalLines replacementLines) (spanIndices (length replacementLines))"

text \<open>The candidate of a span: the span with the one original line of its canonical form.\<close>

definition spanCandidate :: "string list \<Rightarrow> string list \<Rightarrow> nat \<times> nat \<Rightarrow> Candidate" where
  "spanCandidate originalLines replacementLines sl =
     \<lparr>cand_start = fst sl, cand_len = snd sl,
      cand_replacement = hd (matchingOriginals originalLines (spanCanonical replacementLines sl))\<rparr>"

text \<open>The replacement with every span of a list replaced by its line, the spans taken in
  ascending order from position \<open>pos\<close>: the lines before a span are kept, the lines of the
  span give way to the one line, and so on after the span.\<close>

fun replaceSpansFrom :: "nat \<Rightarrow> Candidate list \<Rightarrow> string list \<Rightarrow> string list" where
  "replaceSpansFrom pos [] lns = drop pos lns"
| "replaceSpansFrom pos (c # cs) lns =
     take (cand_start c - pos) (drop pos lns) @ [cand_replacement c]
       @ replaceSpansFrom (cand_start c + cand_len c) cs lns"

section \<open>Basic facts\<close>

lemma arraysEqual_iff: "arraysEqual a b \<longleftrightarrow> a = b"
  by (auto simp: arraysEqual_def list_all_iff intro: nth_equalityI)

lemma split_lines_acc_nonempty: "split_lines_acc acc s \<noteq> []"
  by (induction s arbitrary: acc) auto

lemma split_lines_acc_join:
  "js_join [CHR 0x0A] (split_lines_acc acc s) = rev acc @ s"
proof (induction s arbitrary: acc)
  case Nil
  then show ?case by simp
next
  case (Cons c cs)
  show ?case
  proof (cases "c = CHR 0x0A")
    case True
    obtain y ys where "split_lines_acc [] cs = y # ys"
      using split_lines_acc_nonempty[of "[]" cs] by (cases "split_lines_acc [] cs") auto
    with True Cons[of "[]"] show ?thesis by simp
  next
    case False
    with Cons[of "c # acc"] show ?thesis by simp
  qed
qed

lemma join_split_lines: "js_join [CHR 0x0A] (split_lines s) = s"
  by (simp add: split_lines_def split_lines_acc_join)

lemmas H0_simps = H0_def spec_helpers_def spec_toNewLines_def split_lines_def

section \<open>Whole-file append and prepend\<close>

text \<open>Claim C6. On the sentinel sequence of one empty line, \<open>applyAppend\<close> and
  \<open>applyPrepend\<close> with a payload that normalizes to at least one line return exactly the
  payload lines, so the sentinel is replaced and no blank line stays before or after them.
  With a payload that normalizes to no line each fails with the empty-insert-text error,
  on every line sequence.\<close>

theorem applyAppend_applyPrepend_sentinel:
  "(toNewLines H payload \<noteq> [] \<longrightarrow>
      applyAppend H [[]] payload = Inr (toNewLines H payload) \<and>
      applyPrepend H [[]] payload = Inr (toNewLines H payload)) \<and>
   (toNewLines H payload = [] \<longrightarrow>
      applyAppend H lns payload = Inl (EmptyInsertText ''append'' None) \<and>
      applyPrepend H lns payload = Inl (EmptyInsertText ''prepend'' None))"
  by (simp add: applyAppend_def applyPrepend_def)

theorem applyAppend_applyPrepend_sentinel_witness:
  "toNewLines H0 (Text ''x\<newline>y'') = [''x'', ''y''] \<and>
   applyAppend H0 [[]] (Text ''x\<newline>y'') = Inr [''x'', ''y''] \<and>
   applyPrepend H0 [[]] (Text ''x\<newline>y'') = Inr [''x'', ''y''] \<and>
   toNewLines H0 (Lines []) = [] \<and>
   applyAppend H0 [''a''] (Lines []) = Inl (EmptyInsertText ''append'' None) \<and>
   applyPrepend H0 [''a''] (Lines []) = Inl (EmptyInsertText ''prepend'' None)"
proof -
  have p: "toNewLines H0 (Text ''x\<newline>y'') = [''x'', ''y'']"
    by (simp add: H0_simps)
  have e: "toNewLines H0 (Lines []) = []"
    by (simp add: H0_simps)
  from p have "toNewLines H0 (Text ''x\<newline>y'') \<noteq> []" by simp
  with applyAppend_applyPrepend_sentinel[of H0 "Text ''x\<newline>y''"]
  have 1: "applyAppend H0 [[]] (Text ''x\<newline>y'') = Inr (toNewLines H0 (Text ''x\<newline>y''))"
    and 2: "applyPrepend H0 [[]] (Text ''x\<newline>y'') = Inr (toNewLines H0 (Text ''x\<newline>y''))"
    by blast+
  from e applyAppend_applyPrepend_sentinel[of H0 "Lines []" "[''a'']"]
  have 3: "applyAppend H0 [''a''] (Lines []) = Inl (EmptyInsertText ''append'' None)"
    and 4: "applyPrepend H0 [''a''] (Lines []) = Inl (EmptyInsertText ''prepend'' None)"
    by blast+
  from p e 1 2 3 4 show ?thesis by simp
qed

section \<open>Indentation restoration for paired replacements\<close>

text \<open>Claim C5, as stated, asks that every corrected line with no leading white space of
  its own whose trimmed form differs from that of the original line at its position be
  returned with the original line's leading white space before it. The empty line is such
  a line, and the function returns it as it is: against the original line \<open>"  x"\<close> the
  empty replacement line stays empty, where the claim asks for two spaces.\<close>

theorem restoreIndentForPairedReplacement_empty_line_counterexample:
  "length [''  x''] = length [''''] \<and>
   leadingWhitespace '''' = [] \<and>
   js_trim ''  x'' \<noteq> js_trim '''' \<and>
   restoreIndentForPairedReplacement [''  x''] [''''] = [''''] \<and>
   [leadingWhitespace ''  x'' @ ''''] = [''  ''] \<and>
   restoreIndentForPairedReplacement [''  x''] [''''] \<noteq> [leadingWhitespace ''  x'' @ '''']"
  by (simp add: restoreIndentForPairedReplacement_def leadingWhitespace_def js_trim_def isSpace_def)

text \<open>Claim C5, amended. When the corrected replacement and the original have equal line
  counts, every non-empty corrected line that has no leading white space of its own and
  whose trimmed form differs from the trimmed form of the original line at the same
  position is returned prefixed with that original line's leading white space; every
  other corrected line is returned unchanged.\<close>

theorem restoreIndentForPairedReplacement_paired:
  assumes "length originalLines = length replacementLines"
  shows "restoreIndentForPairedReplacement originalLines replacementLines =
     map2 (\<lambda>orig ln.
             if ln \<noteq> [] \<and> leadingWhitespace ln = [] \<and> js_trim orig \<noteq> js_trim ln
             then leadingWhitespace orig @ ln else ln)
       originalLines replacementLines"
proof (rule nth_equalityI)
  show "length (restoreIndentForPairedReplacement originalLines replacementLines) =
        length (map2 (\<lambda>orig ln.
             if ln \<noteq> [] \<and> leadingWhitespace ln = [] \<and> js_trim orig \<noteq> js_trim ln
             then leadingWhitespace orig @ ln else ln)
       originalLines replacementLines)"
    using assms by (simp add: restoreIndentForPairedReplacement_def)
next
  fix i assume "i < length (restoreIndentForPairedReplacement originalLines replacementLines)"
  then have i: "i < length replacementLines"
    using assms by (simp add: restoreIndentForPairedReplacement_def)
  then show "restoreIndentForPairedReplacement originalLines replacementLines ! i =
     map2 (\<lambda>orig ln.
             if ln \<noteq> [] \<and> leadingWhitespace ln = [] \<and> js_trim orig \<noteq> js_trim ln
             then leadingWhitespace orig @ ln else ln)
       originalLines replacementLines ! i"
    using assms by (simp add: restoreIndentForPairedReplacement_def nth_enumerate_eq Let_def)
qed

theorem restoreIndentForPairedReplacement_paired_witness:
  "length [''  x'', ''  y'', ''  w''] = length [''z'', ''y'', '' v''] \<and>
   restoreIndentForPairedReplacement [''  x'', ''  y'', ''  w''] [''z'', ''y'', '' v'']
     = [''  z'', ''y'', '' v'']"
  using restoreIndentForPairedReplacement_paired[of "[''  x'', ''  y'', ''  w'']" "[''z'', ''y'', '' v'']"]
  by (simp add: leadingWhitespace_def js_trim_def isSpace_def)

section \<open>The application order\<close>

subsection \<open>The stable sort\<close>

lemma mset_insort_cmp: "mset (insort_cmp cmp x xs) = add_mset x (mset xs)"
  by (induction xs) auto

lemma mset_sort_cmp: "mset (sort_cmp cmp xs) = mset xs"
  unfolding sort_cmp_def by (induction xs) (auto simp: mset_insort_cmp)

lemma set_insort_cmp: "set (insort_cmp cmp x xs) = insert x (set xs)"
  by (induction xs) auto

lemma set_sort_cmp: "set (sort_cmp cmp xs) = set xs"
  using mset_sort_cmp[of cmp xs] by (metis set_mset_mset)

lemma length_sort_cmp: "length (sort_cmp cmp xs) = length xs"
  using mset_sort_cmp[of cmp xs] by (metis size_mset)

lemma sorted_insort_cmp:
  assumes "total_preorder_cmp cmp" "sorted_wrt (\<lambda>a b. cmp a b \<le> 0) xs"
  shows "sorted_wrt (\<lambda>a b. cmp a b \<le> 0) (insort_cmp cmp x xs)"
  using assms(2)
proof (induction xs)
  case Nil
  then show ?case by simp
next
  case (Cons y ys)
  show ?case
  proof (cases "cmp x y \<le> 0")
    case True
    have "\<forall>z\<in>set ys. cmp x z \<le> 0"
      using True Cons.prems assms(1) unfolding total_preorder_cmp_def by (metis sorted_wrt.simps(2))
    with True Cons.prems show ?thesis by simp
  next
    case False
    then have "cmp y x \<le> 0"
      using assms(1) unfolding total_preorder_cmp_def by metis
    with False Cons show ?thesis by (auto simp: set_insort_cmp)
  qed
qed

lemma sorted_sort_cmp:
  assumes "total_preorder_cmp cmp"
  shows "sorted_wrt (\<lambda>a b. cmp a b \<le> 0) (sort_cmp cmp xs)"
  unfolding sort_cmp_def by (induction xs) (auto intro: sorted_insort_cmp[OF assms])

lemma compareEdits_le_iff:
  "compareEdits a b \<le> 0 \<longleftrightarrow>
     (fst a \<noteq> fst b \<and> lineAtLeast (fst a) (fst b)) \<or>
     (fst a = fst b \<and> editPrecedence (snd a) \<le> editPrecedence (snd b))"
  by (auto simp: compareEdits_def lineDifference_def lineAtLeast_def Let_def split: LineNumber.splits)

lemma lineAtLeast_refl: "lineAtLeast a a"
  by (simp add: lineAtLeast_def split: LineNumber.splits)

lemma lineAtLeast_trans: "lineAtLeast a b \<Longrightarrow> lineAtLeast b c \<Longrightarrow> lineAtLeast a c"
  by (auto simp: lineAtLeast_def split: LineNumber.splits)

lemma lineAtLeast_total: "lineAtLeast a b \<or> lineAtLeast b a"
  by (auto simp: lineAtLeast_def split: LineNumber.splits)

lemma lineAtLeast_antisym: "lineAtLeast a b \<Longrightarrow> lineAtLeast b a \<Longrightarrow> a = b"
  by (auto simp: lineAtLeast_def split: LineNumber.splits)

lemma compareEdits_total: "compareEdits x y \<le> 0 \<or> compareEdits y x \<le> 0"
  by (cases "fst x"; cases "fst y")
     (auto simp: compareEdits_def lineDifference_def Let_def)

lemma compareEdits_trans:
  "compareEdits x y \<le> 0 \<Longrightarrow> compareEdits y z \<le> 0 \<Longrightarrow> compareEdits x z \<le> 0"
  by (cases "fst x"; cases "fst y"; cases "fst z")
     (simp_all add: compareEdits_def lineDifference_def Let_def split: if_splits)

lemma total_preorder_compareEdits: "total_preorder_cmp compareEdits"
  unfolding total_preorder_cmp_def
  using compareEdits_total compareEdits_trans by blast

subsection \<open>Anchor lines of the sorted edits\<close>

lemma getEditLineNumber_NegativeInfinity:
  "getEditLineNumber H edit = Inr k \<Longrightarrow> (k = NegativeInfinity \<longleftrightarrow> isWholeFile edit)"
  by (cases edit) (auto simp: getEditLineNumber_def isWholeFile_def map_sum_def split: if_splits sum.splits)

lemma lineNumbers_zip:
  "lineNumbers H edits = Inr ns \<Longrightarrow>
     length ns = length edits \<and> (\<forall>p\<in>set (zip ns edits). getEditLineNumber H (snd p) = Inr (fst p))"
proof (induction edits arbitrary: ns)
  case Nil
  then show ?case by simp
next
  case (Cons e es)
  then obtain k ks where k: "getEditLineNumber H e = Inr k" and ks: "lineNumbers H es = Inr ks"
    and ns: "ns = k # ks"
    by (auto simp: map_sum_def split: sum.splits)
  from Cons.IH[OF ks] k ns show ?case by auto
qed

lemma sortEdits_short: "length edits < 2 \<Longrightarrow> sortEdits H edits = Inr edits"
  by (simp add: sortEdits_def)

text \<open>Claim C2, as stated, has the sentinel order a whole-file \<open>prepend\<close> first in the
  application order. Both whole-file edits get \<open>Number.NEGATIVE_INFINITY\<close>, and the sort
  is descending, so a whole-file \<open>prepend\<close> is applied last: submitted before a replace
  of line 1, it is applied after it.\<close>

theorem sortEdits_prepend_last_counterexample:
  "sortEdits H0 [Prepend None (Text ''x''), Replace ''1'' None (Text ''y'')] =
     Inr [Replace ''1'' None (Text ''y''), Prepend None (Text ''x'')]"
  by code_simp

text \<open>Claim C2, amended. For every deduplicated batch, the edits are applied in descending
  order of their derived anchor line (bottom-of-file edits first): the sorted array is a
  permutation of the batch, and of two edits the earlier one has the anchor line that is
  at least the other's. The sentinel of whole-file edits without a \<open>pos\<close> is negative
  infinity for \<open>append\<close> and \<open>prepend\<close> alike, and orders every whole-file edit after
  all anchored edits: whatever follows a whole-file edit is a whole-file edit.\<close>

theorem sortEdits_descending:
  assumes "sortEdits H edits = Inr applied"
  shows "mset applied = mset edits \<and>
    (\<forall>i j. i < j \<and> j < length applied \<longrightarrow>
       (\<exists>a b. getEditLineNumber H (applied ! i) = Inr a \<and>
              getEditLineNumber H (applied ! j) = Inr b \<and> lineAtLeast a b) \<and>
       (isWholeFile (applied ! i) \<longrightarrow> isWholeFile (applied ! j)))"
proof (cases "length edits < 2")
  case True
  with assms have "applied = edits" by (simp add: sortEdits_def)
  with True show ?thesis by auto
next
  case False
  with assms obtain ns where ns: "lineNumbers H edits = Inr ns"
    and applied: "applied = map snd (sort_cmp compareEdits (zip ns edits))"
    by (auto simp: sortEdits_def split: sum.splits)
  define ps where "ps = sort_cmp compareEdits (zip ns edits)"
  from lineNumbers_zip[OF ns] have len: "length ns = length edits"
    and keys: "\<forall>p\<in>set (zip ns edits). getEditLineNumber H (snd p) = Inr (fst p)"
    by auto
  have "mset applied = image_mset snd (mset ps)"
    by (simp add: applied ps_def)
  also have "\<dots> = image_mset snd (mset (zip ns edits))"
    by (simp add: ps_def mset_sort_cmp)
  also have "\<dots> = mset (map snd (zip ns edits))" by simp
  also have "\<dots> = mset edits" using len by (simp add: map_snd_zip)
  finally have perm: "mset applied = mset edits" .
  have srt: "sorted_wrt (\<lambda>a b. compareEdits a b \<le> 0) ps"
    unfolding ps_def by (rule sorted_sort_cmp[OF total_preorder_compareEdits])
  have pkeys: "\<forall>p\<in>set ps. getEditLineNumber H (snd p) = Inr (fst p)"
    using keys by (simp add: ps_def set_sort_cmp)
  have order: "(\<exists>a b. getEditLineNumber H (applied ! i) = Inr a \<and>
              getEditLineNumber H (applied ! j) = Inr b \<and> lineAtLeast a b) \<and>
       (isWholeFile (applied ! i) \<longrightarrow> isWholeFile (applied ! j))"
    if ij: "i < j" "j < length applied" for i j
  proof -
    from ij have j: "j < length ps" and i: "i < length ps" by (auto simp: applied ps_def)
    have cmp: "compareEdits (ps ! i) (ps ! j) \<le> 0"
      using srt ij(1) j by (simp add: sorted_wrt_iff_nth_less)
    have ki: "getEditLineNumber H (snd (ps ! i)) = Inr (fst (ps ! i))"
      and kj: "getEditLineNumber H (snd (ps ! j)) = Inr (fst (ps ! j))"
      using pkeys i j by auto
    have ge: "lineAtLeast (fst (ps ! i)) (fst (ps ! j))"
      using cmp lineAtLeast_refl[of "fst (ps ! i)"] by (auto simp: compareEdits_le_iff)
    have si: "applied ! i = snd (ps ! i)" and sj: "applied ! j = snd (ps ! j)"
      using i j by (simp_all add: applied ps_def)
    have whole: "isWholeFile (applied ! i) \<longrightarrow> isWholeFile (applied ! j)"
    proof
      assume "isWholeFile (applied ! i)"
      with getEditLineNumber_NegativeInfinity[OF ki] si have "fst (ps ! i) = NegativeInfinity" by simp
      with ge have "fst (ps ! j) = NegativeInfinity"
        by (simp add: lineAtLeast_def split: LineNumber.splits)
      with getEditLineNumber_NegativeInfinity[OF kj] sj show "isWholeFile (applied ! j)" by simp
    qed
    from ki kj ge si sj whole show ?thesis by auto
  qed
  from perm order show ?thesis by blast
qed

theorem sortEdits_descending_witness:
  "sortEdits H0 [Prepend None (Text ''x''), Replace ''1'' None (Text ''y''),
       Append (Some ''3'') (Text ''z''), Append None (Text ''w'')] =
     Inr [Append (Some ''3'') (Text ''z''), Replace ''1'' None (Text ''y''),
          Append None (Text ''w''), Prepend None (Text ''x'')] \<and>
   mset [Append (Some ''3'') (Text ''z''), Replace ''1'' None (Text ''y''),
          Append None (Text ''w''), Prepend None (Text ''x'')] =
     mset [Prepend None (Text ''x''), Replace ''1'' None (Text ''y''),
       Append (Some ''3'') (Text ''z''), Append None (Text ''w'')] \<and>
   (\<exists>a b. getEditLineNumber H0 (Append (Some ''3'') (Text ''z'')) = Inr a \<and>
          getEditLineNumber H0 (Replace ''1'' None (Text ''y'')) = Inr b \<and> lineAtLeast a b) \<and>
   isWholeFile (Append None (Text ''w'')) \<and> isWholeFile (Prepend None (Text ''x''))"
proof -
  let ?E = "[Prepend None (Text ''x''), Replace ''1'' None (Text ''y''),
       Append (Some ''3'') (Text ''z''), Append None (Text ''w'')]"
  let ?S = "[Append (Some ''3'') (Text ''z''), Replace ''1'' None (Text ''y''),
          Append None (Text ''w''), Prepend None (Text ''x'')]"
  have run: "sortEdits H0 ?E = Inr ?S" by code_simp
  note main = sortEdits_descending[OF run]
  from main have perm: "mset ?S = mset ?E" by (rule conjunct1)
  from main have ord: "\<forall>i j. i < j \<and> j < length ?S \<longrightarrow>
       (\<exists>a b. getEditLineNumber H0 (?S ! i) = Inr a \<and>
              getEditLineNumber H0 (?S ! j) = Inr b \<and> lineAtLeast a b) \<and>
       (isWholeFile (?S ! i) \<longrightarrow> isWholeFile (?S ! j))" by (rule conjunct2)
  from ord[rule_format, of 0 1]
  have a: "\<exists>a b. getEditLineNumber H0 (Append (Some ''3'') (Text ''z'')) = Inr a \<and>
          getEditLineNumber H0 (Replace ''1'' None (Text ''y'')) = Inr b \<and> lineAtLeast a b"
    by simp
  have w: "isWholeFile (Append None (Text ''w''))" by (simp add: isWholeFile_def truthy_def)
  from ord[rule_format, of 2 3] w
  have w2: "isWholeFile (Prepend None (Text ''x''))" by simp
  from run perm a w w2 show ?thesis by blast
qed

section \<open>Deduplication\<close>

lemma dedupeLoop_kept:
  "\<exists>kept.
     dedupe_edits (dedupeLoop H seen deduped n es) = deduped @ kept \<and>
     dedupe_count (dedupeLoop H seen deduped n es) + length kept = n + length es \<and>
     subseq kept es \<and>
     distinct (map (buildDedupeKey H) kept) \<and>
     (\<forall>e\<in>set kept. buildDedupeKey H e \<notin> seen) \<and>
     (\<forall>k. List.find (\<lambda>e. buildDedupeKey H e = k) kept =
          (if k \<in> seen then None else List.find (\<lambda>e. buildDedupeKey H e = k) es))"
proof (induction es arbitrary: seen deduped n)
  case Nil
  show ?case by simp
next
  case (Cons e es)
  show ?case
  proof (cases "buildDedupeKey H e \<in> seen")
    case True
    from Cons.IH[of seen deduped "n + 1"] obtain kept where
      k: "dedupe_edits (dedupeLoop H seen deduped (n + 1) es) = deduped @ kept"
        "dedupe_count (dedupeLoop H seen deduped (n + 1) es) + length kept = n + 1 + length es"
        "subseq kept es" "distinct (map (buildDedupeKey H) kept)"
        "\<forall>e\<in>set kept. buildDedupeKey H e \<notin> seen"
        "\<forall>k. List.find (\<lambda>e. buildDedupeKey H e = k) kept =
          (if k \<in> seen then None else List.find (\<lambda>e. buildDedupeKey H e = k) es)"
      by blast
    have "\<forall>k. List.find (\<lambda>e. buildDedupeKey H e = k) kept =
          (if k \<in> seen then None else List.find (\<lambda>e. buildDedupeKey H e = k) (e # es))"
      using k(6) True by auto
    moreover have "subseq kept (e # es)"
      using k(3) by (rule list_emb_Cons)
    ultimately show ?thesis
      using k True by (intro exI[of _ kept]) (simp add: Let_def)
  next
    case False
    from Cons.IH[of "insert (buildDedupeKey H e) seen" "deduped @ [e]" n] obtain kept where
      k: "dedupe_edits (dedupeLoop H (insert (buildDedupeKey H e) seen) (deduped @ [e]) n es)
            = (deduped @ [e]) @ kept"
        "dedupe_count (dedupeLoop H (insert (buildDedupeKey H e) seen) (deduped @ [e]) n es)
            + length kept = n + length es"
        "subseq kept es" "distinct (map (buildDedupeKey H) kept)"
        "\<forall>x\<in>set kept. buildDedupeKey H x \<notin> insert (buildDedupeKey H e) seen"
        "\<forall>k. List.find (\<lambda>x. buildDedupeKey H x = k) kept =
          (if k \<in> insert (buildDedupeKey H e) seen then None
           else List.find (\<lambda>x. buildDedupeKey H x = k) es)"
      by blast
    have d: "distinct (map (buildDedupeKey H) (e # kept))"
      using k(4,5) by auto
    have f: "\<forall>k. List.find (\<lambda>x. buildDedupeKey H x = k) (e # kept) =
          (if k \<in> seen then None else List.find (\<lambda>x. buildDedupeKey H x = k) (e # es))"
      using k(6) False by auto
    have s: "\<forall>x\<in>set (e # kept). buildDedupeKey H x \<notin> seen"
      using k(5) False by auto
    from k(1,2,3) d f s False show ?thesis
      by (intro exI[of _ "e # kept"]) (simp add: Let_def)
  qed
qed

lemma bar_split:
  "CHR ''|'' \<notin> set a \<Longrightarrow> CHR ''|'' \<notin> set b \<Longrightarrow>
     (a @ CHR ''|'' # x = b @ CHR ''|'' # y \<longleftrightarrow> a = b \<and> x = y)"
proof (induction a arbitrary: b)
  case Nil
  then show ?case by (cases b) auto
next
  case (Cons c a)
  then show ?case by (cases b) auto
qed

lemma buildDedupeKey_parts:
  "buildDedupeKey H e =
     editOp e @ ''|'' @ concat (map (\<lambda>r. r @ ''|'') (anchorRefs e)) @ joinedPayload H e"
  by (cases e)
     (simp_all add: buildDedupeKey_def normalizeEditPayload_def editOp_def anchorRefs_def
        editPayload_def joinedPayload_def)

lemma buildDedupeKey_same_parts:
  "editOp a = editOp b \<Longrightarrow> anchorRefs a = anchorRefs b \<Longrightarrow>
     (buildDedupeKey H a = buildDedupeKey H b \<longleftrightarrow> joinedPayload H a = joinedPayload H b)"
  by (simp add: buildDedupeKey_parts)

lemma buildDedupeKey_op:
  "buildDedupeKey H a = buildDedupeKey H b \<Longrightarrow> editOp a = editOp b"
  by (cases a; cases b) (simp_all add: buildDedupeKey_def editOp_def)

lemma buildDedupeKey_injective:
  assumes "\<forall>r\<in>set (anchorRefs a @ anchorRefs b). CHR ''|'' \<notin> set r"
    and "buildDedupeKey H a = buildDedupeKey H b"
  shows "editOp a = editOp b \<and> anchorRefs a = anchorRefs b \<and> joinedPayload H a = joinedPayload H b"
proof -
  have op: "editOp a = editOp b" using assms(2) by (rule buildDedupeKey_op)
  have len: "length (anchorRefs a) = length (anchorRefs b)"
    using op by (cases a; cases b) (simp_all add: editOp_def anchorRefs_def)
  have "anchorRefs a = anchorRefs b \<and> joinedPayload H a = joinedPayload H b"
  proof (cases a)
    case (Replace p1 e1 l1)
    with op obtain p2 e2 l2 where b: "b = Replace p2 e2 l2"
      by (cases b) (simp_all add: editOp_def)
    from assms(1) Replace b have
      n: "CHR ''|'' \<notin> set p1" "CHR ''|'' \<notin> set p2"
         "CHR ''|'' \<notin> set (case e1 of Some e \<Rightarrow> e | None \<Rightarrow> [])"
         "CHR ''|'' \<notin> set (case e2 of Some e \<Rightarrow> e | None \<Rightarrow> [])"
      by (simp_all add: anchorRefs_def)
    from assms(2) Replace b have
      "p1 @ CHR ''|'' # ((case e1 of Some e \<Rightarrow> e | None \<Rightarrow> []) @ CHR ''|'' # joinedPayload H a)
       = p2 @ CHR ''|'' # ((case e2 of Some e \<Rightarrow> e | None \<Rightarrow> []) @ CHR ''|'' # joinedPayload H b)"
      by (simp add: buildDedupeKey_def normalizeEditPayload_def joinedPayload_def editPayload_def)
    then have "p1 = p2 \<and> (case e1 of Some e \<Rightarrow> e | None \<Rightarrow> []) @ CHR ''|'' # joinedPayload H a
       = (case e2 of Some e \<Rightarrow> e | None \<Rightarrow> []) @ CHR ''|'' # joinedPayload H b"
      using bar_split[OF n(1,2)] by blast
    then have "p1 = p2 \<and> (case e1 of Some e \<Rightarrow> e | None \<Rightarrow> []) = (case e2 of Some e \<Rightarrow> e | None \<Rightarrow> [])
       \<and> joinedPayload H a = joinedPayload H b"
      using bar_split[OF n(3,4)] by blast
    with Replace b show ?thesis by (simp add: anchorRefs_def)
  next
    case (Append p1 l1)
    with op obtain p2 l2 where b: "b = Append p2 l2"
      by (cases b) (simp_all add: editOp_def)
    from assms(1) Append b have
      n: "CHR ''|'' \<notin> set (case p1 of Some e \<Rightarrow> e | None \<Rightarrow> [])"
         "CHR ''|'' \<notin> set (case p2 of Some e \<Rightarrow> e | None \<Rightarrow> [])"
      by (simp_all add: anchorRefs_def)
    from assms(2) Append b have
      "(case p1 of Some e \<Rightarrow> e | None \<Rightarrow> []) @ CHR ''|'' # joinedPayload H a
       = (case p2 of Some e \<Rightarrow> e | None \<Rightarrow> []) @ CHR ''|'' # joinedPayload H b"
      by (simp add: buildDedupeKey_def normalizeEditPayload_def joinedPayload_def editPayload_def)
    then have "(case p1 of Some e \<Rightarrow> e | None \<Rightarrow> []) = (case p2 of Some e \<Rightarrow> e | None \<Rightarrow> [])
       \<and> joinedPayload H a = joinedPayload H b"
      using bar_split[OF n(1,2)] by blast
    with Append b show ?thesis by (simp add: anchorRefs_def)
  next
    case (Prepend p1 l1)
    with op obtain p2 l2 where b: "b = Prepend p2 l2"
      by (cases b) (simp_all add: editOp_def)
    from assms(1) Prepend b have
      n: "CHR ''|'' \<notin> set (case p1 of Some e \<Rightarrow> e | None \<Rightarrow> [])"
         "CHR ''|'' \<notin> set (case p2 of Some e \<Rightarrow> e | None \<Rightarrow> [])"
      by (simp_all add: anchorRefs_def)
    from assms(2) Prepend b have
      "(case p1 of Some e \<Rightarrow> e | None \<Rightarrow> []) @ CHR ''|'' # joinedPayload H a
       = (case p2 of Some e \<Rightarrow> e | None \<Rightarrow> []) @ CHR ''|'' # joinedPayload H b"
      by (simp add: buildDedupeKey_def normalizeEditPayload_def joinedPayload_def editPayload_def)
    then have "(case p1 of Some e \<Rightarrow> e | None \<Rightarrow> []) = (case p2 of Some e \<Rightarrow> e | None \<Rightarrow> [])
       \<and> joinedPayload H a = joinedPayload H b"
      using bar_split[OF n(1,2)] by blast
    with Prepend b show ?thesis by (simp add: anchorRefs_def)
  qed
  with op show ?thesis by simp
qed

lemma dedupeLoop_first_occurrences:
  "dedupe_edits (dedupeLoop H seen deduped n es) =
     deduped @ map ((!) es)
       (filter (\<lambda>i. buildDedupeKey H (es ! i) \<notin> seen \<and>
                    (\<forall>j<i. buildDedupeKey H (es ! j) \<noteq> buildDedupeKey H (es ! i)))
          [0..<length es])"
proof (induction es arbitrary: seen deduped n)
  case Nil
  show ?case by simp
next
  case (Cons e es)
  let ?k = "buildDedupeKey H"
  have upt: "[0..<length (e # es)] = 0 # map Suc [0..<length es]"
    by (simp add: upt_conv_Cons map_Suc_upt del: upt_Suc)
  have all_Suc: "\<And>i. (\<forall>j<Suc i. ?k ((e # es) ! j) \<noteq> ?k (es ! i)) \<longleftrightarrow>
      ?k e \<noteq> ?k (es ! i) \<and> (\<forall>j<i. ?k (es ! j) \<noteq> ?k (es ! i))"
  proof -
    fix i
    show "(\<forall>j<Suc i. ?k ((e # es) ! j) \<noteq> ?k (es ! i)) \<longleftrightarrow>
      ?k e \<noteq> ?k (es ! i) \<and> (\<forall>j<i. ?k (es ! j) \<noteq> ?k (es ! i))"
    proof
      assume a: "\<forall>j<Suc i. ?k ((e # es) ! j) \<noteq> ?k (es ! i)"
      then have "?k ((e # es) ! 0) \<noteq> ?k (es ! i)" by blast
      moreover have "\<forall>j<i. ?k (es ! j) \<noteq> ?k (es ! i)"
      proof (intro allI impI)
        fix j assume "j < i"
        then have "Suc j < Suc i" by simp
        with a have "?k ((e # es) ! Suc j) \<noteq> ?k (es ! i)" by blast
        then show "?k (es ! j) \<noteq> ?k (es ! i)" by simp
      qed
      ultimately show "?k e \<noteq> ?k (es ! i) \<and> (\<forall>j<i. ?k (es ! j) \<noteq> ?k (es ! i))" by simp
    next
      assume a: "?k e \<noteq> ?k (es ! i) \<and> (\<forall>j<i. ?k (es ! j) \<noteq> ?k (es ! i))"
      show "\<forall>j<Suc i. ?k ((e # es) ! j) \<noteq> ?k (es ! i)"
      proof (intro allI impI)
        fix j assume "j < Suc i"
        with a show "?k ((e # es) ! j) \<noteq> ?k (es ! i)" by (cases j) simp_all
      qed
    qed
  qed
  have tail: "\<And>S. map ((!) (e # es))
       (filter (\<lambda>i. ?k ((e # es) ! i) \<notin> S \<and> (\<forall>j<i. ?k ((e # es) ! j) \<noteq> ?k ((e # es) ! i)))
          (map Suc [0..<length es])) =
     map ((!) es)
       (filter (\<lambda>i. ?k (es ! i) \<notin> insert (?k e) S \<and> (\<forall>j<i. ?k (es ! j) \<noteq> ?k (es ! i)))
          [0..<length es])"
  proof -
    fix S
    have "filter (\<lambda>i. ?k ((e # es) ! i) \<notin> S \<and> (\<forall>j<i. ?k ((e # es) ! j) \<noteq> ?k ((e # es) ! i)))
          (map Suc [0..<length es]) =
        map Suc (filter (\<lambda>i. ?k (es ! i) \<notin> insert (?k e) S \<and> (\<forall>j<i. ?k (es ! j) \<noteq> ?k (es ! i)))
          [0..<length es])"
      unfolding filter_map comp_def nth_Cons_Suc all_Suc
      by (intro arg_cong[where f = "map Suc"] filter_cong refl) auto
    then show "map ((!) (e # es))
       (filter (\<lambda>i. ?k ((e # es) ! i) \<notin> S \<and> (\<forall>j<i. ?k ((e # es) ! j) \<noteq> ?k ((e # es) ! i)))
          (map Suc [0..<length es])) =
     map ((!) es)
       (filter (\<lambda>i. ?k (es ! i) \<notin> insert (?k e) S \<and> (\<forall>j<i. ?k (es ! j) \<noteq> ?k (es ! i)))
          [0..<length es])"
      by (simp add: comp_def)
  qed
  let ?P = "\<lambda>S i. ?k ((e # es) ! i) \<notin> S \<and> (\<forall>j<i. ?k ((e # es) ! j) \<noteq> ?k ((e # es) ! i))"
  show ?case
  proof (cases "?k e \<in> seen")
    case True
    then have ins: "insert (?k e) seen = seen" by auto
    have L: "dedupe_edits (dedupeLoop H seen deduped n (e # es)) =
        dedupe_edits (dedupeLoop H seen deduped (n + 1) es)"
      using True by (simp add: Let_def)
    have "\<not> ?P seen 0" using True by simp
    then have R: "filter (?P seen) (0 # map Suc [0..<length es]) =
        filter (?P seen) (map Suc [0..<length es])"
      by (rule filter.simps(2)[THEN trans, OF if_not_P])
    show ?thesis
      unfolding L upt R tail[of seen] ins Cons.IH[of seen deduped "n + 1"] ..
  next
    case False
    have L: "dedupe_edits (dedupeLoop H seen deduped n (e # es)) =
        dedupe_edits (dedupeLoop H (insert (?k e) seen) (deduped @ [e]) n es)"
      using False by (simp add: Let_def)
    have "?P seen 0" using False by simp
    then have R: "filter (?P seen) (0 # map Suc [0..<length es]) =
        0 # filter (?P seen) (map Suc [0..<length es])"
      by (rule filter.simps(2)[THEN trans, OF if_P])
    show ?thesis
      unfolding L upt R list.map tail[of seen] Cons.IH[of "insert (?k e) seen" "deduped @ [e]" n]
      by simp
  qed
qed

lemma dedupeEdits_set: "set (dedupe_edits (dedupeEdits H edits)) \<subseteq> set edits"
proof -
  from dedupeLoop_kept[of H "{}" "[]" 0 edits] obtain kept where
    "dedupe_edits (dedupeEdits H edits) = kept" "subseq kept edits"
    by (auto simp: dedupeEdits_def)
  then show ?thesis by (auto dest: list_emb_set)
qed

text \<open>Claim C8. Submitting the identical edit twice in one batch yields
  \<open>deduplicatedEdits = 1\<close> with the edit applied once: the outcome of the batch is that
  of the batch with the single edit, but for the count. In general the surviving edits
  are a subsequence of the batch (their relative order is preserved), no normalized key
  occurs twice among them, for every key the survivor with that key is the first edit of
  the batch with that key (and there is one whenever the batch has one), and every dropped
  edit is counted: the survivors are exactly the edits at the positions whose key occurs
  at no earlier position, in the order of the batch. The key is made of the operation,
  the anchor references and the payload normalized to lines and joined by newline: two
  edits with the same operation and the same anchor references have the same key exactly
  when their joined payloads are equal; two edits with different operations never have
  the same key; and when no anchor reference contains the separator \<open>|\<close>, two keys are
  equal exactly when the operations, the anchor references and the joined payloads
  are.\<close>

theorem dedupeEdits_first_occurrence:
  "subseq (dedupe_edits (dedupeEdits H edits)) edits \<and>
   distinct (map (buildDedupeKey H) (dedupe_edits (dedupeEdits H edits))) \<and>
   (\<forall>k. List.find (\<lambda>e. buildDedupeKey H e = k) (dedupe_edits (dedupeEdits H edits)) =
        List.find (\<lambda>e. buildDedupeKey H e = k) edits) \<and>
   dedupe_count (dedupeEdits H edits) + length (dedupe_edits (dedupeEdits H edits)) = length edits \<and>
   dedupeEdits H [e, e] = \<lparr>dedupe_edits = [e], dedupe_count = 1\<rparr> \<and>
   applyHashlineEditsWithReport H text [e, e] =
     map_sum id (\<lambda>r. r\<lparr>deduplicatedEdits := 1\<rparr>) (applyHashlineEditsWithReport H text [e]) \<and>
   dedupe_edits (dedupeEdits H edits) =
     map ((!) edits)
       (filter (\<lambda>i. \<forall>j<i. buildDedupeKey H (edits ! j) \<noteq> buildDedupeKey H (edits ! i))
          [0..<length edits]) \<and>
   (editOp a = editOp b \<and> anchorRefs a = anchorRefs b \<longrightarrow>
      (buildDedupeKey H a = buildDedupeKey H b \<longleftrightarrow> joinedPayload H a = joinedPayload H b)) \<and>
   (editOp a \<noteq> editOp b \<longrightarrow> buildDedupeKey H a \<noteq> buildDedupeKey H b) \<and>
   ((\<forall>r\<in>set (anchorRefs a @ anchorRefs b). CHR ''|'' \<notin> set r) \<longrightarrow>
      (buildDedupeKey H a = buildDedupeKey H b \<longleftrightarrow>
         editOp a = editOp b \<and> anchorRefs a = anchorRefs b \<and>
         joinedPayload H a = joinedPayload H b))"
proof -
  from dedupeLoop_kept[of H "{}" "[]" 0 edits] obtain kept where
    k: "dedupe_edits (dedupeEdits H edits) = kept"
       "dedupe_count (dedupeEdits H edits) + length kept = length edits"
       "subseq kept edits" "distinct (map (buildDedupeKey H) kept)"
       "\<forall>k. List.find (\<lambda>e. buildDedupeKey H e = k) kept = List.find (\<lambda>e. buildDedupeKey H e = k) edits"
    by (auto simp: dedupeEdits_def)
  have two: "dedupeEdits H [e, e] = \<lparr>dedupe_edits = [e], dedupe_count = 1\<rparr>"
    by (simp add: dedupeEdits_def Let_def)
  have one: "dedupeEdits H [e] = \<lparr>dedupe_edits = [e], dedupe_count = 0\<rparr>"
    by (simp add: dedupeEdits_def Let_def)
  have run: "applyHashlineEditsWithReport H text [e, e] =
     map_sum id (\<lambda>r. r\<lparr>deduplicatedEdits := 1\<rparr>) (applyHashlineEditsWithReport H text [e])"
    unfolding applyHashlineEditsWithReport_def two one
    by (simp add: Let_def split: sum.splits option.splits prod.splits)
  have first: "dedupe_edits (dedupeEdits H edits) =
     map ((!) edits)
       (filter (\<lambda>i. \<forall>j<i. buildDedupeKey H (edits ! j) \<noteq> buildDedupeKey H (edits ! i))
          [0..<length edits])"
    using dedupeLoop_first_occurrences[of H "{}" "[]" 0 edits] by (simp add: dedupeEdits_def)
  have same: "editOp a = editOp b \<and> anchorRefs a = anchorRefs b \<longrightarrow>
      (buildDedupeKey H a = buildDedupeKey H b \<longleftrightarrow> joinedPayload H a = joinedPayload H b)"
    using buildDedupeKey_same_parts[of a b H] by blast
  have op: "editOp a \<noteq> editOp b \<longrightarrow> buildDedupeKey H a \<noteq> buildDedupeKey H b"
    using buildDedupeKey_op[of H a b] by blast
  have inj: "(\<forall>r\<in>set (anchorRefs a @ anchorRefs b). CHR ''|'' \<notin> set r) \<longrightarrow>
      (buildDedupeKey H a = buildDedupeKey H b \<longleftrightarrow>
         editOp a = editOp b \<and> anchorRefs a = anchorRefs b \<and>
         joinedPayload H a = joinedPayload H b)"
    using buildDedupeKey_injective[of a b H] buildDedupeKey_same_parts[of a b H] by blast
  from k two run have old: "subseq (dedupe_edits (dedupeEdits H edits)) edits \<and>
   distinct (map (buildDedupeKey H) (dedupe_edits (dedupeEdits H edits))) \<and>
   (\<forall>k. List.find (\<lambda>e. buildDedupeKey H e = k) (dedupe_edits (dedupeEdits H edits)) =
        List.find (\<lambda>e. buildDedupeKey H e = k) edits) \<and>
   dedupe_count (dedupeEdits H edits) + length (dedupe_edits (dedupeEdits H edits)) = length edits \<and>
   dedupeEdits H [e, e] = \<lparr>dedupe_edits = [e], dedupe_count = 1\<rparr> \<and>
   applyHashlineEditsWithReport H text [e, e] =
     map_sum id (\<lambda>r. r\<lparr>deduplicatedEdits := 1\<rparr>) (applyHashlineEditsWithReport H text [e])"
    by simp
  from old first same op inj show ?thesis by (simp only: simp_thms)
qed

theorem dedupeEdits_first_occurrence_witness:
  "dedupeEdits H0 [Replace ''2'' None (Text ''B''), Append None (Text ''z''),
       Replace ''2'' None (Lines [''B''])] =
     \<lparr>dedupe_edits = [Replace ''2'' None (Text ''B''), Append None (Text ''z'')],
      dedupe_count = 1\<rparr> \<and>
   subseq (dedupe_edits (dedupeEdits H0 [Replace ''2'' None (Text ''B''), Append None (Text ''z''),
       Replace ''2'' None (Lines [''B''])]))
     [Replace ''2'' None (Text ''B''), Append None (Text ''z''), Replace ''2'' None (Lines [''B''])] \<and>
   applyHashlineEditsWithReport H0 ''a\<newline>b\<newline>c''
       [Replace ''2'' None (Text ''B''), Replace ''2'' None (Text ''B'')] =
     Inr \<lparr>content = ''a\<newline>B\<newline>c'', noopEdits = 0, deduplicatedEdits = 1\<rparr> \<and>
   buildDedupeKey H0 (Replace ''2'' None (Text ''B\<newline>C'')) =
     buildDedupeKey H0 (Replace ''2'' None (Lines [''B'', ''C''])) \<and>
   buildDedupeKey H0 (Replace ''2'' None (Text ''B'')) \<noteq>
     buildDedupeKey H0 (Replace ''2'' None (Text ''C'')) \<and>
   buildDedupeKey H0 (Replace ''2'' None (Text ''B'')) \<noteq>
     buildDedupeKey H0 (Replace ''3'' None (Text ''B'')) \<and>
   buildDedupeKey H0 (Append (Some ''2'') (Text ''B'')) \<noteq>
     buildDedupeKey H0 (Prepend (Some ''2'') (Text ''B'')) \<and>
   dedupeEdits H0 [Replace ''2'' None (Text ''B''), Replace ''2'' None (Text ''C''),
       Replace ''3'' None (Text ''B''), Append (Some ''2'') (Text ''B''),
       Prepend (Some ''2'') (Text ''B'')] =
     \<lparr>dedupe_edits = [Replace ''2'' None (Text ''B''), Replace ''2'' None (Text ''C''),
       Replace ''3'' None (Text ''B''), Append (Some ''2'') (Text ''B''),
       Prepend (Some ''2'') (Text ''B'')], dedupe_count = 0\<rparr>"
proof -
  let ?E = "[Replace ''2'' None (Text ''B''), Append None (Text ''z''),
       Replace ''2'' None (Lines [''B''])]"
  let ?e = "Replace ''2'' None (Text ''B'')"
  let ?t = "''a\<newline>b\<newline>c''"
  note main = dedupeEdits_first_occurrence[of H0 ?E ?e ?t]
  have a: "dedupeEdits H0 ?E =
     \<lparr>dedupe_edits = [Replace ''2'' None (Text ''B''), Append None (Text ''z'')],
      dedupe_count = 1\<rparr>"
    by code_simp
  from main have b: "subseq (dedupe_edits (dedupeEdits H0 ?E)) ?E" by (rule conjunct1)
  have one: "applyHashlineEditsWithReport H0 ?t [?e] =
     Inr \<lparr>content = ''a\<newline>B\<newline>c'', noopEdits = 0, deduplicatedEdits = 0\<rparr>"
    by code_simp
  from main[THEN conjunct2, THEN conjunct2, THEN conjunct2, THEN conjunct2, THEN conjunct2,
      THEN conjunct1]
  have "applyHashlineEditsWithReport H0 ?t [?e, ?e] =
     map_sum id (\<lambda>r. r\<lparr>deduplicatedEdits := 1\<rparr>)
       (applyHashlineEditsWithReport H0 ?t [?e])" .
  with one have c: "applyHashlineEditsWithReport H0 ?t [?e, ?e] =
     Inr \<lparr>content = ''a\<newline>B\<newline>c'', noopEdits = 0, deduplicatedEdits = 1\<rparr>"
    by simp
  \<comment> \<open>a string and its split-line form have the same key\<close>
  let ?s = "Replace ''2'' None (Text ''B\<newline>C'')" and ?l = "Replace ''2'' None (Lines [''B'', ''C''])"
  have ps: "editOp ?s = editOp ?l \<and> anchorRefs ?s = anchorRefs ?l"
    by (simp add: editOp_def anchorRefs_def)
  have js: "joinedPayload H0 ?s = joinedPayload H0 ?l" by code_simp
  from dedupeEdits_first_occurrence[of H0 ?E ?e ?t ?s ?l, THEN conjunct2, THEN conjunct2,
      THEN conjunct2, THEN conjunct2, THEN conjunct2, THEN conjunct2, THEN conjunct2,
      THEN conjunct1, THEN mp, OF ps] js
  have d: "buildDedupeKey H0 ?s = buildDedupeKey H0 ?l" by simp
  \<comment> \<open>the payload, the anchors and the operation each tell two keys apart\<close>
  let ?c = "Replace ''2'' None (Text ''C'')"
  have pc: "editOp ?e = editOp ?c \<and> anchorRefs ?e = anchorRefs ?c"
    by (simp add: editOp_def anchorRefs_def)
  have jc: "joinedPayload H0 ?e \<noteq> joinedPayload H0 ?c" by code_simp
  from dedupeEdits_first_occurrence[of H0 ?E ?e ?t ?e ?c, THEN conjunct2, THEN conjunct2,
      THEN conjunct2, THEN conjunct2, THEN conjunct2, THEN conjunct2, THEN conjunct2,
      THEN conjunct1, THEN mp, OF pc] jc
  have e: "buildDedupeKey H0 ?e \<noteq> buildDedupeKey H0 ?c" by simp
  let ?r3 = "Replace ''3'' None (Text ''B'')"
  have nb: "\<forall>r\<in>set (anchorRefs ?e @ anchorRefs ?r3). CHR ''|'' \<notin> set r"
    by (simp add: anchorRefs_def)
  have na: "anchorRefs ?e \<noteq> anchorRefs ?r3" by (simp add: anchorRefs_def)
  from dedupeEdits_first_occurrence[of H0 ?E ?e ?t ?e ?r3, THEN conjunct2, THEN conjunct2,
      THEN conjunct2, THEN conjunct2, THEN conjunct2, THEN conjunct2, THEN conjunct2,
      THEN conjunct2, THEN conjunct2, THEN mp, OF nb] na
  have f: "buildDedupeKey H0 ?e \<noteq> buildDedupeKey H0 ?r3" by simp
  let ?ap = "Append (Some ''2'') (Text ''B'')" and ?pp = "Prepend (Some ''2'') (Text ''B'')"
  have no: "editOp ?ap \<noteq> editOp ?pp" by (simp add: editOp_def)
  from dedupeEdits_first_occurrence[of H0 ?E ?e ?t ?ap ?pp, THEN conjunct2, THEN conjunct2,
      THEN conjunct2, THEN conjunct2, THEN conjunct2, THEN conjunct2, THEN conjunct2,
      THEN conjunct2, THEN conjunct1, THEN mp, OF no]
  have g: "buildDedupeKey H0 ?ap \<noteq> buildDedupeKey H0 ?pp" .
  have h: "dedupeEdits H0 [?e, ?c, ?r3, ?ap, ?pp] =
     \<lparr>dedupe_edits = [?e, ?c, ?r3, ?ap, ?pp], dedupe_count = 0\<rparr>"
    by code_simp
  from a b c d e f g h show ?thesis by (simp only: simp_thms)
qed

section \<open>The orchestrator\<close>

subsection \<open>No-op edits\<close>

lemma autocorrect_single_same: "autocorrectReplacementLines [x] [x] = [x]"
  by (simp add: autocorrectReplacementLines_def maybeExpandSingleLineMerge_def
      restoreOldWrappedLines_def restoreIndentForPairedReplacement_def Let_def)

lemma js_splice_same:
  assumes "1 \<le> k" "k \<le> length xs"
  shows "js_splice xs (int k - 1) 1 [xs ! (k - 1)] = xs"
proof -
  from assms have k: "k - 1 < length xs" by simp
  have "nat (int k - 1) = k - 1" using assms by simp
  moreover have "nat (int k - 1 + min 1 (int (length xs) - (int k - 1))) = Suc (k - 1)"
    using assms by (simp add: min_def)
  ultimately show ?thesis
    using assms id_take_nth_drop[OF k]
    by (simp add: js_splice_def Let_def min_def max_def)
qed

lemma shouldValidate_skip [simp]: "\<not> shouldValidate (Some \<lparr>skipValidation = Some True\<rparr>)"
  by (simp add: shouldValidate_def)

lemma applySetLine_same:
  assumes "parseLineRef H pos = Inr r" "1 \<le> line r" "line r \<le> length lns"
    "toNewLines H payload = [lns ! (line r - 1)]"
    "restoreLeadingIndent H (lns ! (line r - 1)) (lns ! (line r - 1)) = lns ! (line r - 1)"
  shows "applySetLine H lns pos payload (Some \<lparr>skipValidation = Some True\<rparr>) = Inr lns"
proof -
  have idx: "js_index lns (int (line r) - 1) = Some (lns ! (line r - 1))"
    using assms(2,3) by (auto simp: js_index_def nat_diff_distrib)
  show ?thesis
    using assms js_splice_same[OF assms(2,3)]
    by (simp add: applySetLine_def idx autocorrect_single_same restoreFirst_def Let_def)
qed

lemma dedupeEdits_single: "dedupeEdits H [e] = \<lparr>dedupe_edits = [e], dedupe_count = 0\<rparr>"
  by (simp add: dedupeEdits_def Let_def)

lemma sortEdits_single: "sortEdits H [e] = Inr [e]"
  by (simp add: sortEdits_def)

lemma applyEdits_step:
  "applyEdit H lns e = Inr cand \<Longrightarrow>
     applyEdits H lns n (e # es) =
       (if cand = lns then applyEdits H lns (n + 1) es else applyEdits H cand n es)"
  by (simp add: arraysEqual_iff)

text \<open>Claim C7. For every content of at least two lines, a batch whose single edit
  replaces a line (line 2, or any line of the content) cited by a valid reference with
  that line's own current text returns the content unchanged and reports
  \<open>noopEdits = 1\<close>. "Its own current text" is a payload that \<open>toNewLines\<close> normalizes
  to that one line, and \<open>restoreLeadingIndent\<close> is taken to leave a line alone when the
  template is the line itself. In general, in every iteration of the loop, a candidate
  line sequence equal to the sequence before the edit is discarded and counted in
  \<open>noopEdits\<close>, and any other candidate becomes the current sequence.\<close>

theorem replace_line_with_itself_noop:
  "(1 \<le> line r \<and> line r \<le> length (split_lines input) \<and> 2 \<le> length (split_lines input) \<and>
    parseLineRef H pos = Inr r \<and>
    validateLineRefs H (split_lines input) [pos] = None \<and>
    toNewLines H payload = [split_lines input ! (line r - 1)] \<and>
    restoreLeadingIndent H (split_lines input ! (line r - 1)) (split_lines input ! (line r - 1))
      = split_lines input ! (line r - 1)
    \<longrightarrow> applyHashlineEditsWithReport H input [Replace pos None payload] =
          Inr \<lparr>content = input, noopEdits = 1, deduplicatedEdits = 0\<rparr>) \<and>
   (applyEdit H lns e = Inr cand \<longrightarrow>
      applyEdits H lns n (e # es) =
        (if cand = lns then applyEdits H lns (n + 1) es else applyEdits H cand n es))"
proof (intro conjI impI)
  assume a: "1 \<le> line r \<and> line r \<le> length (split_lines input) \<and> 2 \<le> length (split_lines input) \<and>
    parseLineRef H pos = Inr r \<and>
    validateLineRefs H (split_lines input) [pos] = None \<and>
    toNewLines H payload = [split_lines input ! (line r - 1)] \<and>
    restoreLeadingIndent H (split_lines input ! (line r - 1)) (split_lines input ! (line r - 1))
      = split_lines input ! (line r - 1)"
  let ?L = "split_lines input"
  have ne: "input \<noteq> []"
    using a by (auto simp: split_lines_def)
  have set: "applySetLine H ?L pos payload (Some \<lparr>skipValidation = Some True\<rparr>) = Inr ?L"
    using a by (intro applySetLine_same[of H pos r]) simp_all
  have edit: "applyEdit H ?L (Replace pos None payload) = Inr ?L"
    by (simp add: applyEdit_def truthy_def set)
  have loop: "applyEdits H ?L 0 [Replace pos None payload] = Inr (?L, 1)"
    using applyEdits_step[OF edit, of 0 "[]"] by simp
  have refs: "collectLineRefs [Replace pos None payload] = [pos]"
    by (simp add: collectLineRefs_def truthy_def)
  have ov: "detectOverlappingRanges H [Replace pos None payload] = Inr None"
    by (simp add: detectOverlappingRanges_def truthy_def)
  show "applyHashlineEditsWithReport H input [Replace pos None payload] =
          Inr \<lparr>content = input, noopEdits = 1, deduplicatedEdits = 0\<rparr>"
    using a ne
    by (simp add: applyHashlineEditsWithReport_def dedupeEdits_single sortEdits_single refs ov loop
        join_split_lines Let_def del: applyEdits.simps)
next
  assume "applyEdit H lns e = Inr cand"
  then show "applyEdits H lns n (e # es) =
        (if cand = lns then applyEdits H lns (n + 1) es else applyEdits H cand n es)"
    by (rule applyEdits_step)
qed

theorem replace_line_with_itself_noop_witness:
  "applyHashlineEditsWithReport H0 ''a\<newline>b\<newline>c'' [Replace ''2'' None (Text ''b'')] =
     Inr \<lparr>content = ''a\<newline>b\<newline>c'', noopEdits = 1, deduplicatedEdits = 0\<rparr> \<and>
   applyEdit H0 [''a'', ''b''] (Append (Some ''1'') (Text ''x'')) = Inr [''a'', ''x'', ''b''] \<and>
   applyEdits H0 [''a'', ''b''] 0 [Append (Some ''1'') (Text ''x''), Replace ''1'' None (Text ''a'')] =
     Inr ([''a'', ''x'', ''b''], 1)"
proof -
  let ?r = "\<lparr>line = 2, hash = None\<rparr>"
  have L: "split_lines ''a\<newline>b\<newline>c'' = [''a'', ''b'', ''c'']" by code_simp
  have p: "parseLineRef H0 ''2'' = Inr ?r" by code_simp
  have v: "validateLineRefs H0 [''a'', ''b'', ''c''] [''2''] = None" by code_simp
  have t: "toNewLines H0 (Text ''b'') = [''b'']" by code_simp
  have ri: "restoreLeadingIndent H0 ''b'' ''b'' = ''b''" by code_simp
  note main = replace_line_with_itself_noop[where r = ?r and input = "''a\<newline>b\<newline>c''"
      and H = H0 and pos = "''2''" and payload = "Text ''b''"]
  from main L p v t ri
  have a: "applyHashlineEditsWithReport H0 ''a\<newline>b\<newline>c'' [Replace ''2'' None (Text ''b'')] =
     Inr \<lparr>content = ''a\<newline>b\<newline>c'', noopEdits = 1, deduplicatedEdits = 0\<rparr>"
    by simp
  have e1: "applyEdit H0 [''a'', ''b''] (Append (Some ''1'') (Text ''x'')) = Inr [''a'', ''x'', ''b'']"
    by code_simp
  have e2: "applyEdit H0 [''a'', ''x'', ''b''] (Replace ''1'' None (Text ''a'')) = Inr [''a'', ''x'', ''b'']"
    by code_simp
  from replace_line_with_itself_noop[where H = H0 and lns = "[''a'', ''b'']"
      and e = "Append (Some ''1'') (Text ''x'')" and cand = "[''a'', ''x'', ''b'']" and n = 0
      and es = "[Replace ''1'' None (Text ''a'')]"] e1
  have s1: "applyEdits H0 [''a'', ''b''] 0 [Append (Some ''1'') (Text ''x''), Replace ''1'' None (Text ''a'')] =
      applyEdits H0 [''a'', ''x'', ''b''] 0 [Replace ''1'' None (Text ''a'')]"
    by simp
  from replace_line_with_itself_noop[where H = H0 and lns = "[''a'', ''x'', ''b'']"
      and e = "Replace ''1'' None (Text ''a'')" and cand = "[''a'', ''x'', ''b'']" and n = 0
      and es = "[]"] e2
  have s2: "applyEdits H0 [''a'', ''x'', ''b''] 0 [Replace ''1'' None (Text ''a'')] =
      Inr ([''a'', ''x'', ''b''], 1)"
    by simp
  from a e1 s1 s2 show ?thesis by simp
qed

subsection \<open>Failures and validation\<close>

lemma applyEdits_append:
  "applyEdits H lns n (xs @ ys) =
     (case applyEdits H lns n xs of Inl e \<Rightarrow> Inl e | Inr (mid, m) \<Rightarrow> applyEdits H mid m ys)"
  by (induction xs arbitrary: lns n) (auto split: sum.splits)

lemma applyEdits_failure:
  assumes "applyEdits H lns n xs = Inr (mid, m)" "applyEdit H mid e = Inl err"
  shows "applyEdits H lns n (xs @ e # ys) = Inl err"
  using assms by (simp add: applyEdits_append)

lemma getEditLineNumber_validators [simp]:
  "getEditLineNumber (H\<lparr>validateLineRef := v1, validateLineRefs := v2\<rparr>) e = getEditLineNumber H e"
  by (cases e) (simp_all add: getEditLineNumber_def)

lemma lineNumbers_validators [simp]:
  "lineNumbers (H\<lparr>validateLineRef := v1, validateLineRefs := v2\<rparr>) es = lineNumbers H es"
  by (induction es) (simp_all split: sum.splits)

lemma sortEdits_validators [simp]:
  "sortEdits (H\<lparr>validateLineRef := v1, validateLineRefs := v2\<rparr>) es = sortEdits H es"
  by (simp add: sortEdits_def split: sum.splits)

lemma buildDedupeKey_validators [simp]:
  "buildDedupeKey (H\<lparr>validateLineRef := v1, validateLineRefs := v2\<rparr>) e = buildDedupeKey H e"
  by (cases e) (simp_all add: buildDedupeKey_def normalizeEditPayload_def)

lemma dedupeLoop_validators [simp]:
  "dedupeLoop (H\<lparr>validateLineRef := v1, validateLineRefs := v2\<rparr>) seen acc n es
     = dedupeLoop H seen acc n es"
  by (induction es arbitrary: seen acc n) (simp_all add: Let_def)

lemma dedupeEdits_validators [simp]:
  "dedupeEdits (H\<lparr>validateLineRef := v1, validateLineRefs := v2\<rparr>) es = dedupeEdits H es"
  by (simp add: dedupeEdits_def)

lemma collectRanges_validators [simp]:
  "collectRanges (H\<lparr>validateLineRef := v1, validateLineRefs := v2\<rparr>) i es = collectRanges H i es"
  by (induction es arbitrary: i) (simp_all split: HashlineEdit.splits sum.splits)

lemma detectOverlappingRanges_validators [simp]:
  "detectOverlappingRanges (H\<lparr>validateLineRef := v1, validateLineRefs := v2\<rparr>) es
     = detectOverlappingRanges H es"
  by (simp add: detectOverlappingRanges_def split: sum.splits)

lemma restoreFirst_validators [simp]:
  "restoreFirst (H\<lparr>validateLineRef := v1, validateLineRefs := v2\<rparr>) t c = restoreFirst H t c"
  by (simp add: restoreFirst_def case_prod_beta)

lemma applyEdit_validators [simp]:
  "applyEdit (H\<lparr>validateLineRef := v1, validateLineRefs := v2\<rparr>) lns e = applyEdit H lns e"
  by (cases e)
     (simp_all add: applyEdit_def applySetLine_def applyReplaceLines_def applyInsertAfter_def
        applyInsertBefore_def applyAppend_def applyPrepend_def Let_def
        split: sum.splits option.splits)

lemma applyEdits_validators [simp]:
  "applyEdits (H\<lparr>validateLineRef := v1, validateLineRefs := v2\<rparr>) lns n es = applyEdits H lns n es"
  by (induction es arbitrary: lns n) (simp_all split: sum.splits)

lemma applyHashlineEditsWithReport_sorted:
  assumes "edits \<noteq> []"
    and "sortEdits H (dedupe_edits (dedupeEdits H edits)) = Inr sortedEdits"
  shows "applyHashlineEditsWithReport H input edits =
    (case validateLineRefs H (snapshotLines input) (collectLineRefs sortedEdits) of
       Some e \<Rightarrow> Inl e
     | None \<Rightarrow>
         (case detectOverlappingRanges H sortedEdits of
            Inl e \<Rightarrow> Inl e
          | Inr (Some overlapError) \<Rightarrow> Inl overlapError
          | Inr None \<Rightarrow>
              (case applyEdits H (snapshotLines input) 0 sortedEdits of
                 Inl e \<Rightarrow> Inl e
               | Inr (final, noop) \<Rightarrow>
                   Inr \<lparr>content = js_join [CHR 0x0A] final, noopEdits = noop,
                        deduplicatedEdits = dedupe_count (dedupeEdits H edits)\<rparr>)))"
  using assms unfolding applyHashlineEditsWithReport_def snapshotLines_def Let_def by simp

text \<open>Claim C1. A failure of \<open>applyHashlineEditsWithReport\<close> is an exception: the result is
  the error, and no report and no content are produced; the content is a string value
  that nothing changes. This holds at every stage: when the sort fails on a reference
  that does not parse, when the validation fails, and when an edit of the loop fails
  after other edits have succeeded on the working copy. The references collected from
  the batch are validated once, against the line sequence of the original content: a
  failure of that validation is the outcome of the call, and the outcome does not depend
  on what the validators would answer on any other line sequence (the per-edit validator
  \<open>validateLineRef\<close> is never consulted, and \<open>validateLineRefs\<close> only at the original
  snapshot).\<close>

theorem batch_validated_up_front:
  "(edits \<noteq> [] \<and> sortEdits H (dedupe_edits (dedupeEdits H edits)) = Inl err \<longrightarrow>
      applyHashlineEditsWithReport H input edits = Inl err) \<and>
   (edits \<noteq> [] \<and> sortEdits H (dedupe_edits (dedupeEdits H edits)) = Inr sortedEdits \<longrightarrow>
      (validateLineRefs H (snapshotLines input) (collectLineRefs sortedEdits) = Some err \<longrightarrow>
         applyHashlineEditsWithReport H input edits = Inl err) \<and>
      (v2 (snapshotLines input) (collectLineRefs sortedEdits)
          = validateLineRefs H (snapshotLines input) (collectLineRefs sortedEdits) \<longrightarrow>
         applyHashlineEditsWithReport (H\<lparr>validateLineRef := v1, validateLineRefs := v2\<rparr>) input edits
           = applyHashlineEditsWithReport H input edits) \<and>
      (validateLineRefs H (snapshotLines input) (collectLineRefs sortedEdits) = None \<and>
       detectOverlappingRanges H sortedEdits = Inr None \<and>
       sortedEdits = applied @ edit # rest \<and>
       applyEdits H (snapshotLines input) 0 applied = Inr (mid, n) \<and>
       applyEdit H mid edit = Inl err \<longrightarrow>
         applyHashlineEditsWithReport H input edits = Inl err))"
proof (intro conjI impI)
  assume "edits \<noteq> [] \<and> sortEdits H (dedupe_edits (dedupeEdits H edits)) = Inl err"
  then show "applyHashlineEditsWithReport H input edits = Inl err"
    by (simp add: applyHashlineEditsWithReport_def Let_def)
next
  assume s: "edits \<noteq> [] \<and> sortEdits H (dedupe_edits (dedupeEdits H edits)) = Inr sortedEdits"
  then have unf: "applyHashlineEditsWithReport H input edits =
    (case validateLineRefs H (snapshotLines input) (collectLineRefs sortedEdits) of
       Some e \<Rightarrow> Inl e
     | None \<Rightarrow>
         (case detectOverlappingRanges H sortedEdits of
            Inl e \<Rightarrow> Inl e
          | Inr (Some overlapError) \<Rightarrow> Inl overlapError
          | Inr None \<Rightarrow>
              (case applyEdits H (snapshotLines input) 0 sortedEdits of
                 Inl e \<Rightarrow> Inl e
               | Inr (final, noop) \<Rightarrow>
                   Inr \<lparr>content = js_join [CHR 0x0A] final, noopEdits = noop,
                        deduplicatedEdits = dedupe_count (dedupeEdits H edits)\<rparr>)))"
    by (intro applyHashlineEditsWithReport_sorted) simp_all
  {
    assume "validateLineRefs H (snapshotLines input) (collectLineRefs sortedEdits) = Some err"
    then show "applyHashlineEditsWithReport H input edits = Inl err"
      by (simp add: unf)
  next
    let ?H' = "H\<lparr>validateLineRef := v1, validateLineRefs := v2\<rparr>"
    assume v: "v2 (snapshotLines input) (collectLineRefs sortedEdits)
          = validateLineRefs H (snapshotLines input) (collectLineRefs sortedEdits)"
    have s': "sortEdits ?H' (dedupe_edits (dedupeEdits ?H' edits)) = Inr sortedEdits"
      using s by simp
    from s have ne: "edits \<noteq> []" by simp
    show "applyHashlineEditsWithReport ?H' input edits = applyHashlineEditsWithReport H input edits"
      unfolding unf applyHashlineEditsWithReport_sorted[OF ne s']
      using v by (simp split: option.splits sum.splits)
  next
    assume a: "validateLineRefs H (snapshotLines input) (collectLineRefs sortedEdits) = None \<and>
       detectOverlappingRanges H sortedEdits = Inr None \<and>
       sortedEdits = applied @ edit # rest \<and>
       applyEdits H (snapshotLines input) 0 applied = Inr (mid, n) \<and>
       applyEdit H mid edit = Inl err"
    then have f: "applyEdits H (snapshotLines input) 0 sortedEdits = Inl err"
      using applyEdits_failure[of H "snapshotLines input" 0 applied mid n edit err rest] by simp
    from a have v: "validateLineRefs H (snapshotLines input) (collectLineRefs sortedEdits) = None"
      and d: "detectOverlappingRanges H sortedEdits = Inr None"
      by blast+
    show "applyHashlineEditsWithReport H input edits = Inl err"
      unfolding unf v d f by simp
  }
qed

theorem batch_validated_up_front_witness:
  "applyHashlineEditsWithReport H0 ''a\<newline>b\<newline>c'' [Replace ''9'' None (Text ''x'')] =
     Inl (LineOutOfRange ''9'') \<and>
   applyHashlineEditsWithReport H0 ''a\<newline>b\<newline>c''
       [Replace ''2'' (Some ''1'') (Text ''X''), Replace ''3'' None (Text ''C'')] =
     Inl (InvalidRange 2 1) \<and>
   applyHashlineEditsWithReport
       (H0\<lparr>validateLineRef := (\<lambda>lns ref. Some (HelperFailure ''called'')),
           validateLineRefs := (\<lambda>lns refs. if lns = [''a'', ''b'', ''c''] then None
                                            else Some (HelperFailure ''intermediate''))\<rparr>)
       ''a\<newline>b\<newline>c'' [Replace ''1'' None (Text ''A''), Append (Some ''3'') (Text ''d'')] =
     Inr \<lparr>content = ''A\<newline>b\<newline>c\<newline>d'', noopEdits = 0, deduplicatedEdits = 0\<rparr> \<and>
   applyHashlineEditsWithReport H0 ''a\<newline>b\<newline>c'' [Replace ''x'' None (Text ''A''), Append (Some ''3'') (Text ''d'')] =
     Inl (InvalidLineRefFormat ''x'')"
proof -
  let ?t = "''a\<newline>b\<newline>c''"
  have S: "snapshotLines ?t = [''a'', ''b'', ''c'']" by code_simp
  \<comment> \<open>a reference out of range\<close>
  let ?E1 = "[Replace ''9'' None (Text ''x'')]"
  have s1: "?E1 \<noteq> [] \<and> sortEdits H0 (dedupe_edits (dedupeEdits H0 ?E1)) = Inr ?E1" by code_simp
  have v1: "validateLineRefs H0 (snapshotLines ?t) (collectLineRefs ?E1) = Some (LineOutOfRange ''9'')"
    by code_simp
  from batch_validated_up_front[where H = H0 and edits = ?E1 and sortedEdits = ?E1 and input = ?t
      and err = "LineOutOfRange ''9''"] s1 v1
  have a: "applyHashlineEditsWithReport H0 ?t ?E1 = Inl (LineOutOfRange ''9'')" by blast
  \<comment> \<open>an edit that fails after another one was applied\<close>
  let ?E2 = "[Replace ''2'' (Some ''1'') (Text ''X''), Replace ''3'' None (Text ''C'')]"
  let ?S2 = "[Replace ''3'' None (Text ''C''), Replace ''2'' (Some ''1'') (Text ''X'')]"
  have s2: "?E2 \<noteq> [] \<and> sortEdits H0 (dedupe_edits (dedupeEdits H0 ?E2)) = Inr ?S2" by code_simp
  have h2: "validateLineRefs H0 (snapshotLines ?t) (collectLineRefs ?S2) = None \<and>
       detectOverlappingRanges H0 ?S2 = Inr None \<and>
       ?S2 = [Replace ''3'' None (Text ''C'')] @ Replace ''2'' (Some ''1'') (Text ''X'') # [] \<and>
       applyEdits H0 (snapshotLines ?t) 0 [Replace ''3'' None (Text ''C'')] = Inr ([''a'', ''b'', ''C''], 0) \<and>
       applyEdit H0 [''a'', ''b'', ''C''] (Replace ''2'' (Some ''1'') (Text ''X'')) = Inl (InvalidRange 2 1)"
    by code_simp
  from batch_validated_up_front[where H = H0 and edits = ?E2 and sortedEdits = ?S2 and input = ?t
      and err = "InvalidRange 2 1" and applied = "[Replace ''3'' None (Text ''C'')]"
      and edit = "Replace ''2'' (Some ''1'') (Text ''X'')" and rest = "[]"
      and mid = "[''a'', ''b'', ''C'']" and n = 0] s2 h2
  have b: "applyHashlineEditsWithReport H0 ?t ?E2 = Inl (InvalidRange 2 1)" by blast
  \<comment> \<open>validators that fail everywhere but on the snapshot\<close>
  let ?E3 = "[Replace ''1'' None (Text ''A''), Append (Some ''3'') (Text ''d'')]"
  let ?S3 = "[Append (Some ''3'') (Text ''d''), Replace ''1'' None (Text ''A'')]"
  let ?v1 = "\<lambda>(lns :: string list) (ref :: string). Some (HelperFailure ''called'')"
  let ?v2 = "\<lambda>(lns :: string list) (refs :: string list).
     if lns = [''a'', ''b'', ''c''] then None else Some (HelperFailure ''intermediate'')"
  have s3: "?E3 \<noteq> [] \<and> sortEdits H0 (dedupe_edits (dedupeEdits H0 ?E3)) = Inr ?S3" by code_simp
  have v3: "validateLineRefs H0 (snapshotLines ?t) (collectLineRefs ?S3) = None" by code_simp
  have r3: "applyHashlineEditsWithReport H0 ?t ?E3 =
     Inr \<lparr>content = ''A\<newline>b\<newline>c\<newline>d'', noopEdits = 0, deduplicatedEdits = 0\<rparr>"
    by code_simp
  have "?v2 (snapshotLines ?t) (collectLineRefs ?S3)
      = validateLineRefs H0 (snapshotLines ?t) (collectLineRefs ?S3)"
    using v3 by (simp add: S)
  with batch_validated_up_front[where H = H0 and edits = ?E3 and sortedEdits = ?S3 and input = ?t
      and ?v1.0 = ?v1 and ?v2.0 = ?v2] s3
  have "applyHashlineEditsWithReport (H0\<lparr>validateLineRef := ?v1, validateLineRefs := ?v2\<rparr>) ?t ?E3
      = applyHashlineEditsWithReport H0 ?t ?E3"
    by blast
  with r3 have c: "applyHashlineEditsWithReport (H0\<lparr>validateLineRef := ?v1, validateLineRefs := ?v2\<rparr>) ?t ?E3
      = Inr \<lparr>content = ''A\<newline>b\<newline>c\<newline>d'', noopEdits = 0, deduplicatedEdits = 0\<rparr>"
    by simp
  \<comment> \<open>a reference that does not parse\<close>
  let ?E4 = "[Replace ''x'' None (Text ''A''), Append (Some ''3'') (Text ''d'')]"
  have s4: "?E4 \<noteq> [] \<and> sortEdits H0 (dedupe_edits (dedupeEdits H0 ?E4)) = Inl (InvalidLineRefFormat ''x'')"
    by code_simp
  from batch_validated_up_front[where H = H0 and edits = ?E4 and input = ?t
      and err = "InvalidLineRefFormat ''x''"] s4
  have d: "applyHashlineEditsWithReport H0 ?t ?E4 = Inl (InvalidLineRefFormat ''x'')" by blast
  from a b c d show ?thesis by blast
qed

subsection \<open>Empty content\<close>

text \<open>Claim C9. The empty content is the empty line sequence, not the sequence of one
  empty line: the references of a batch are validated against no line at all. A batch
  with only a whole-file \<open>append\<close> or \<open>prepend\<close> of a payload that normalizes to at least
  one line returns the payload lines joined by newline, with no empty line before or
  after them.\<close>

theorem empty_content_is_no_line:
  "(validateLineRefs H [] [] = None \<and> toNewLines H payload \<noteq> [] \<and> \<not> truthy pos \<longrightarrow>
      applyHashlineEditsWithReport H [] [Append pos payload] =
        Inr \<lparr>content = js_join [CHR 0x0A] (toNewLines H payload), noopEdits = 0,
             deduplicatedEdits = 0\<rparr> \<and>
      applyHashlineEditsWithReport H [] [Prepend pos payload] =
        Inr \<lparr>content = js_join [CHR 0x0A] (toNewLines H payload), noopEdits = 0,
             deduplicatedEdits = 0\<rparr>) \<and>
   (validateLineRefs H [] (collectLineRefs [e]) = Some err \<longrightarrow>
      applyHashlineEditsWithReport H [] [e] = Inl err)"
proof (intro conjI impI)
  assume a: "validateLineRefs H [] [] = None \<and> toNewLines H payload \<noteq> [] \<and> \<not> truthy pos"
  have ne: "\<not> arraysEqual (toNewLines H payload) []"
    using a by (simp add: arraysEqual_iff)
  show "applyHashlineEditsWithReport H [] [Append pos payload] =
        Inr \<lparr>content = js_join [CHR 0x0A] (toNewLines H payload), noopEdits = 0,
             deduplicatedEdits = 0\<rparr>"
    using a ne
    by (simp add: applyHashlineEditsWithReport_def dedupeEdits_single sortEdits_single
        collectLineRefs_def detectOverlappingRanges_def applyEdit_def applyAppend_def Let_def)
  show "applyHashlineEditsWithReport H [] [Prepend pos payload] =
        Inr \<lparr>content = js_join [CHR 0x0A] (toNewLines H payload), noopEdits = 0,
             deduplicatedEdits = 0\<rparr>"
    using a ne
    by (simp add: applyHashlineEditsWithReport_def dedupeEdits_single sortEdits_single
        collectLineRefs_def detectOverlappingRanges_def applyEdit_def applyPrepend_def Let_def)
next
  assume "validateLineRefs H [] (collectLineRefs [e]) = Some err"
  then show "applyHashlineEditsWithReport H [] [e] = Inl err"
    by (simp add: applyHashlineEditsWithReport_def dedupeEdits_single sortEdits_single Let_def)
qed

theorem empty_content_is_no_line_witness:
  "applyHashlineEditsWithReport H0 '''' [Append None (Text ''x\<newline>y'')] =
     Inr \<lparr>content = ''x\<newline>y'', noopEdits = 0, deduplicatedEdits = 0\<rparr> \<and>
   applyHashlineEditsWithReport H0 '''' [Prepend None (Lines [''x'', ''y''])] =
     Inr \<lparr>content = ''x\<newline>y'', noopEdits = 0, deduplicatedEdits = 0\<rparr> \<and>
   validateLineRefs H0 [''''] (collectLineRefs [Replace ''1'' None (Text ''x'')]) = None \<and>
   applyHashlineEditsWithReport H0 '''' [Replace ''1'' None (Text ''x'')] = Inl (LineOutOfRange ''1'')"
proof -
  have v: "validateLineRefs H0 [] [] = None" by code_simp
  have t1: "toNewLines H0 (Text ''x\<newline>y'') = [''x'', ''y'']" by code_simp
  have t2: "toNewLines H0 (Lines [''x'', ''y'']) = [''x'', ''y'']" by code_simp
  have tr: "\<not> truthy None" by (simp add: truthy_def)
  from empty_content_is_no_line[where H = H0 and payload = "Text ''x\<newline>y''" and pos = None] v t1 tr
  have a: "applyHashlineEditsWithReport H0 '''' [Append None (Text ''x\<newline>y'')] =
     Inr \<lparr>content = ''x\<newline>y'', noopEdits = 0, deduplicatedEdits = 0\<rparr>"
    by simp
  from empty_content_is_no_line[where H = H0 and payload = "Lines [''x'', ''y'']" and pos = None] v t2 tr
  have b: "applyHashlineEditsWithReport H0 '''' [Prepend None (Lines [''x'', ''y''])] =
     Inr \<lparr>content = ''x\<newline>y'', noopEdits = 0, deduplicatedEdits = 0\<rparr>"
    by simp
  have c: "validateLineRefs H0 [''''] (collectLineRefs [Replace ''1'' None (Text ''x'')]) = None"
    by code_simp
  have d0: "validateLineRefs H0 [] (collectLineRefs [Replace ''1'' None (Text ''x'')]) = Some (LineOutOfRange ''1'')"
    by code_simp
  from empty_content_is_no_line[where H = H0 and e = "Replace ''1'' None (Text ''x'')"
      and err = "LineOutOfRange ''1''"] d0
  have d: "applyHashlineEditsWithReport H0 '''' [Replace ''1'' None (Text ''x'')] = Inl (LineOutOfRange ''1'')"
    by simp
  from a b c d show ?thesis by simp
qed

section \<open>Overlapping range edits\<close>

lemma compareRanges_le_iff:
  "compareRanges a b \<le> 0 \<longleftrightarrow>
     range_start a < range_start b \<or> (range_start a = range_start b \<and> range_end a \<le> range_end b)"
  by (auto simp: compareRanges_def)

lemma total_preorder_compareRanges: "total_preorder_cmp compareRanges"
  unfolding total_preorder_cmp_def compareRanges_le_iff by auto

lemma firstOverlap_None_iff:
  assumes "sorted_wrt (\<lambda>a b. compareRanges a b \<le> 0) rs"
  shows "firstOverlap rs = None \<longleftrightarrow> sorted_wrt (\<lambda>a b. range_end a < range_start b) rs"
  using assms
proof (induction rs rule: firstOverlap.induct)
  case (1 prv cur rest)
  have le: "\<forall>z\<in>set rest. range_start cur \<le> range_start z"
    using "1.prems" by (auto simp: compareRanges_le_iff)
  show ?case
  proof (cases "range_start cur \<le> range_end prv")
    case True
    then show ?thesis by auto
  next
    case False
    with "1.IH" "1.prems" have "firstOverlap (cur # rest) = None \<longleftrightarrow>
        sorted_wrt (\<lambda>a b. range_end a < range_start b) (cur # rest)"
      by simp
    with False le show ?thesis by fastforce
  qed
qed simp_all

lemma firstOverlap_Some_adjacent:
  "firstOverlap rs = Some err \<Longrightarrow>
     \<exists>k. Suc k < length rs \<and> range_start (rs ! Suc k) \<le> range_end (rs ! k) \<and>
       err = OverlappingRangeEdits (range_idx (rs ! k) + 1) (range_start (rs ! k)) (range_end (rs ! k))
               (range_idx (rs ! Suc k) + 1) (range_start (rs ! Suc k)) (range_end (rs ! Suc k))"
proof (induction rs rule: firstOverlap.induct)
  case (1 prv cur rest)
  show ?case
  proof (cases "range_start cur \<le> range_end prv")
    case True
    with "1.prems" show ?thesis by (intro exI[of _ 0]) auto
  next
    case False
    with "1.prems" "1.IH" obtain k where "Suc k < length (cur # rest)"
      "range_start ((cur # rest) ! Suc k) \<le> range_end ((cur # rest) ! k)"
      "err = OverlappingRangeEdits (range_idx ((cur # rest) ! k) + 1) (range_start ((cur # rest) ! k))
               (range_end ((cur # rest) ! k))
               (range_idx ((cur # rest) ! Suc k) + 1) (range_start ((cur # rest) ! Suc k))
               (range_end ((cur # rest) ! Suc k))"
      by auto
    then show ?thesis by (intro exI[of _ "Suc k"]) simp
  qed
qed simp_all

lemma collectRanges_mem:
  "collectRanges H i es = Inr ranges \<Longrightarrow>
     (r \<in> set ranges \<longleftrightarrow>
        (\<exists>k<length es. \<exists>pos en l s e.
            es ! k = Replace pos (Some en) l \<and> en \<noteq> [] \<and>
            parseLineRef H pos = Inr s \<and> parseLineRef H en = Inr e \<and>
            r = \<lparr>range_start = line s, range_end = line e, range_idx = i + k\<rparr>))"
proof (induction es arbitrary: i ranges)
  case Nil
  then show ?case by simp
next
  case (Cons ed es)
  define P where "P = (\<lambda>ed' j. \<exists>pos en l s e.
            ed' = Replace pos (Some en) l \<and> en \<noteq> [] \<and>
            parseLineRef H pos = Inr s \<and> parseLineRef H en = Inr e \<and>
            r = \<lparr>range_start = line s, range_end = line e, range_idx = j\<rparr>)"
  have shift: "(\<exists>k<length (ed # es). P ((ed # es) ! k) (i + k)) \<longleftrightarrow>
      P ed i \<or> (\<exists>k<length es. P (es ! k) (i + 1 + k))"
  proof
    assume "\<exists>k<length (ed # es). P ((ed # es) ! k) (i + k)"
    then obtain k where k: "k < length (ed # es)" "P ((ed # es) ! k) (i + k)" by blast
    show "P ed i \<or> (\<exists>k<length es. P (es ! k) (i + 1 + k))"
    proof (cases k)
      case 0
      with k show ?thesis by simp
    next
      case (Suc m)
      with k have "m < length es" "P (es ! m) (i + 1 + m)" by simp_all
      then show ?thesis by blast
    qed
  next
    assume "P ed i \<or> (\<exists>k<length es. P (es ! k) (i + 1 + k))"
    then show "\<exists>k<length (ed # es). P ((ed # es) ! k) (i + k)"
    proof
      assume "P ed i"
      then have "0 < length (ed # es) \<and> P ((ed # es) ! 0) (i + 0)" by simp
      then show ?thesis by blast
    next
      assume "\<exists>k<length es. P (es ! k) (i + 1 + k)"
      then obtain k where "k < length es" "P (es ! k) (i + 1 + k)" by blast
      then have "Suc k < length (ed # es) \<and> P ((ed # es) ! Suc k) (i + Suc k)" by simp
      then show ?thesis by blast
    qed
  qed
  have ih: "\<And>rs. collectRanges H (i + 1) es = Inr rs \<Longrightarrow>
      (r \<in> set rs \<longleftrightarrow> (\<exists>k<length es. P (es ! k) (i + 1 + k)))"
    using Cons.IH[of "i + 1"] unfolding P_def by blast
  have goal: "(r \<in> set ranges) = (\<exists>k<length (ed # es). P ((ed # es) ! k) (i + k))"
  proof (cases "\<exists>pos en l. ed = Replace pos (Some en) l \<and> en \<noteq> []")
    case True
    then obtain pos en l where ed: "ed = Replace pos (Some en) l" "en \<noteq> []" by blast
    with Cons.prems obtain s e rs where
      p: "parseLineRef H pos = Inr s" "parseLineRef H en = Inr e"
      and rs: "collectRanges H (i + 1) es = Inr rs"
      and ranges: "ranges = \<lparr>range_start = line s, range_end = line e, range_idx = i\<rparr> # rs"
      by (auto simp: truthy_def map_sum_def split: sum.splits)
    have "P ed i \<longleftrightarrow> r = \<lparr>range_start = line s, range_end = line e, range_idx = i\<rparr>"
      unfolding P_def using ed p by auto
    with ih[OF rs] ranges shift show ?thesis by auto
  next
    case False
    then have skip: "collectRanges H i (ed # es) = collectRanges H (i + 1) es"
      by (cases ed) (auto simp: truthy_def split: option.splits)
    from False have "\<not> P ed i" unfolding P_def by blast
    with ih[of ranges] Cons.prems skip shift show ?thesis by auto
  qed
  then show ?case unfolding P_def .
qed

lemma collectRanges_cong:
  "map rangedAnchors es = map rangedAnchors es' \<Longrightarrow> collectRanges H i es = collectRanges H i es'"
proof (induction es arbitrary: es' i)
  case Nil
  then show ?case by simp
next
  case (Cons ed es)
  then obtain ed' es'' where es': "es' = ed' # es''" and h: "rangedAnchors ed = rangedAnchors ed'"
    and t: "map rangedAnchors es = map rangedAnchors es''"
    by (cases es') auto
  from Cons.IH[OF t] have ih: "\<And>j. collectRanges H j es = collectRanges H j es''" .
  from h show ?case
    unfolding es'
    by (cases ed; cases ed')
       (auto simp: rangedAnchors_def ih truthy_def split: if_splits option.splits sum.splits)
qed

lemma detectOverlappingRanges_cong:
  "map rangedAnchors es = map rangedAnchors es' \<Longrightarrow>
     detectOverlappingRanges H es = detectOverlappingRanges H es'"
  by (simp add: detectOverlappingRanges_def collectRanges_cong[of es es'])

lemma collectRanges_idx_distinct:
  "collectRanges H i es = Inr ranges \<Longrightarrow>
     distinct (map range_idx ranges) \<and> (\<forall>r\<in>set ranges. i \<le> range_idx r)"
proof (induction es arbitrary: i ranges)
  case Nil
  then show ?case by simp
next
  case (Cons ed es)
  show ?case
  proof (cases "\<exists>pos en l. ed = Replace pos (Some en) l \<and> en \<noteq> []")
    case True
    then obtain pos en l where ed: "ed = Replace pos (Some en) l" "en \<noteq> []" by blast
    with Cons.prems obtain s e rs where
      p: "parseLineRef H pos = Inr s" "parseLineRef H en = Inr e"
      and rs: "collectRanges H (i + 1) es = Inr rs"
      and ranges: "ranges = \<lparr>range_start = line s, range_end = line e, range_idx = i\<rparr> # rs"
      by (auto simp: truthy_def map_sum_def split: sum.splits)
    from Cons.IH[OF rs] ranges show ?thesis by fastforce
  next
    case False
    then have skip: "collectRanges H i (ed # es) = collectRanges H (i + 1) es"
      by (cases ed) (auto simp: truthy_def split: option.splits)
    with Cons.IH[of "i + 1" ranges] Cons.prems show ?thesis by fastforce
  qed
qed

lemma detect_touching:
  assumes "collectRanges H 0 es = Inr ranges"
    and "x \<in> set ranges" "y \<in> set ranges" "x \<noteq> y"
    and "compareRanges x y \<le> 0" "range_start y \<le> range_end x"
  shows "\<exists>p q. p \<in> set ranges \<and> q \<in> set ranges \<and> range_idx p \<noteq> range_idx q \<and>
     compareRanges p q \<le> 0 \<and> range_start q \<le> range_end p \<and>
     detectOverlappingRanges H es =
       Inr (Some (OverlappingRangeEdits (range_idx p + 1) (range_start p) (range_end p)
                    (range_idx q + 1) (range_start q) (range_end q)))"
proof -
  let ?s = "sort_cmp compareRanges ranges"
  have "card {x, y} \<le> card (set ranges)"
    using assms(2,3) by (intro card_mono) auto
  then have len: "\<not> length ranges < 2"
    using assms(4) card_length[of ranges] by simp
  have srt: "sorted_wrt (\<lambda>a b. compareRanges a b \<le> 0) ?s"
    by (rule sorted_sort_cmp[OF total_preorder_compareRanges])
  have "mset (map range_idx ?s) = mset (map range_idx ranges)"
    by (simp add: mset_sort_cmp)
  moreover have "distinct (map range_idx ranges)"
    using collectRanges_idx_distinct[OF assms(1)] by simp
  ultimately have dist: "distinct (map range_idx ?s)"
    by (metis mset_eq_imp_distinct_iff)
  have "firstOverlap ?s \<noteq> None"
  proof
    assume "firstOverlap ?s = None"
    then have gap: "sorted_wrt (\<lambda>a b. range_end a < range_start b) ?s"
      using firstOverlap_None_iff[OF srt] by simp
    have "x \<in> set ?s" "y \<in> set ?s"
      using assms(2,3) by (simp_all add: set_sort_cmp)
    then obtain i j where ij: "i < length ?s" "j < length ?s" "?s ! i = x" "?s ! j = y"
      unfolding in_set_conv_nth by blast
    with assms(4) have "i < j \<or> j < i" by (cases i j rule: linorder_cases) auto
    then show False
    proof
      assume "i < j"
      with gap ij have "range_end x < range_start y"
        by (auto simp: sorted_wrt_iff_nth_less)
      with assms(6) show False by simp
    next
      assume "j < i"
      with gap ij have g: "range_end y < range_start x"
        by (auto simp: sorted_wrt_iff_nth_less)
      from \<open>j < i\<close> srt ij have "compareRanges y x \<le> 0"
        by (auto simp: sorted_wrt_iff_nth_less)
      then have c1: "range_start y < range_start x \<or>
          (range_start y = range_start x \<and> range_end y \<le> range_end x)"
        by (simp only: compareRanges_le_iff)
      from assms(5) have c2: "range_start x < range_start y \<or>
          (range_start x = range_start y \<and> range_end x \<le> range_end y)"
        by (simp only: compareRanges_le_iff)
      from g c1 c2 assms(6) show False by arith
    qed
  qed
  then obtain err where err: "firstOverlap ?s = Some err" by blast
  from firstOverlap_Some_adjacent[OF err] obtain k where
    k: "Suc k < length ?s" "range_start (?s ! Suc k) \<le> range_end (?s ! k)"
    and e: "err = OverlappingRangeEdits (range_idx (?s ! k) + 1) (range_start (?s ! k))
               (range_end (?s ! k))
               (range_idx (?s ! Suc k) + 1) (range_start (?s ! Suc k)) (range_end (?s ! Suc k))"
    by blast
  let ?p = "?s ! k" and ?q = "?s ! Suc k"
  from k(1) have mem: "?p \<in> set ranges" "?q \<in> set ranges"
    using nth_mem[of k ?s] nth_mem[of "Suc k" ?s] by (simp_all add: set_sort_cmp)
  from srt k(1) have ord: "compareRanges ?p ?q \<le> 0"
    by (simp add: sorted_wrt_iff_nth_less)
  from dist k(1) have "map range_idx ?s ! k \<noteq> map range_idx ?s ! Suc k"
    by (simp add: nth_eq_iff_index_eq del: nth_map)
  with k(1) have ne: "range_idx ?p \<noteq> range_idx ?q" by simp
  have d: "detectOverlappingRanges H es = Inr (Some err)"
    using err len assms(1) by (simp add: detectOverlappingRanges_def)
  from mem ne ord k(2) d e show ?thesis
    by (intro exI[of _ ?p] exI[of _ ?q]) simp
qed

lemma collectRanges_distinct:
  "collectRanges H i es = Inr ranges \<Longrightarrow>
     distinct ranges \<and> (\<forall>r\<in>set ranges. i \<le> range_idx r)"
proof (induction es arbitrary: i ranges)
  case Nil
  then show ?case by simp
next
  case (Cons ed es)
  show ?case
  proof (cases "\<exists>pos en l. ed = Replace pos (Some en) l \<and> en \<noteq> []")
    case True
    then obtain pos en l where ed: "ed = Replace pos (Some en) l" "en \<noteq> []" by blast
    with Cons.prems obtain s e rs where
      p: "parseLineRef H pos = Inr s" "parseLineRef H en = Inr e"
      and rs: "collectRanges H (i + 1) es = Inr rs"
      and ranges: "ranges = \<lparr>range_start = line s, range_end = line e, range_idx = i\<rparr> # rs"
      by (auto simp: truthy_def map_sum_def split: sum.splits)
    from Cons.IH[OF rs] ranges show ?thesis by fastforce
  next
    case False
    then have skip: "collectRanges H i (ed # es) = collectRanges H (i + 1) es"
      by (cases ed) (auto simp: truthy_def split: option.splits)
    with Cons.IH[of "i + 1" ranges] Cons.prems show ?thesis by fastforce
  qed
qed

lemma detect_disjoint:
  assumes "collectRanges H 0 es = Inr ranges"
    and "\<forall>x\<in>set ranges. \<forall>y\<in>set ranges.
           x \<noteq> y \<and> range_start x \<le> range_start y \<longrightarrow> range_end x < range_start y"
  shows "detectOverlappingRanges H es = Inr None"
proof (cases "length ranges < 2")
  case True
  with assms(1) show ?thesis by (simp add: detectOverlappingRanges_def)
next
  case False
  let ?s = "sort_cmp compareRanges ranges"
  have srt: "sorted_wrt (\<lambda>a b. compareRanges a b \<le> 0) ?s"
    by (rule sorted_sort_cmp[OF total_preorder_compareRanges])
  have "distinct ranges"
    using collectRanges_distinct[OF assms(1)] by simp
  then have dist: "distinct ?s"
    using mset_sort_cmp[of compareRanges ranges] by (metis mset_eq_imp_distinct_iff)
  have "sorted_wrt (\<lambda>a b. range_end a < range_start b) ?s"
    unfolding sorted_wrt_iff_nth_less
  proof (intro allI impI)
    fix i j assume ij: "i < j" "j < length ?s"
    then have "compareRanges (?s ! i) (?s ! j) \<le> 0"
      using srt by (simp add: sorted_wrt_iff_nth_less)
    then have le: "range_start (?s ! i) \<le> range_start (?s ! j)"
      by (auto simp: compareRanges_le_iff)
    have ne: "?s ! i \<noteq> ?s ! j"
      using dist ij by (simp add: nth_eq_iff_index_eq)
    have "?s ! i \<in> set ranges" "?s ! j \<in> set ranges"
      using ij nth_mem[of i ?s] nth_mem[of j ?s] by (simp_all add: set_sort_cmp)
    with assms(2) le ne show "range_end (?s ! i) < range_start (?s ! j)" by blast
  qed
  with firstOverlap_None_iff[OF srt] False assms(1) show ?thesis
    by (simp add: detectOverlappingRanges_def)
qed

lemma sortEdits_mset: "sortEdits H es = Inr out \<Longrightarrow> mset out = mset es"
proof (cases "length es < 2")
  case True
  assume "sortEdits H es = Inr out"
  with True show ?thesis by (simp add: sortEdits_def)
next
  case False
  assume a: "sortEdits H es = Inr out"
  with False obtain ns where ns: "lineNumbers H es = Inr ns"
    and out: "out = map snd (sort_cmp compareEdits (zip ns es))"
    by (auto simp: sortEdits_def split: sum.splits)
  from lineNumbers_zip[OF ns] have len: "length ns = length es" by simp
  have "mset out = image_mset snd (mset (sort_cmp compareEdits (zip ns es)))"
    by (simp add: out)
  also have "\<dots> = mset (map snd (zip ns es))"
    by (simp add: mset_sort_cmp)
  also have "\<dots> = mset es" using len by (simp add: map_snd_zip)
  finally show ?thesis .
qed

text \<open>Claim C3, as stated, has every batch with two ranged replaces whose intervals touch
  or overlap fail with \<open>OverlappingRangeEdits\<close>, naming both edits by their position in
  the submitted batch. Three runs on the five lines \<open>a\<close> to \<open>e\<close> (and on the single line
  \<open>a\<close>) show otherwise. A batch with the same ranged replace twice is deduplicated before
  the check and succeeds. A batch whose references are out of range fails in the
  validation, which comes before the check. And for the replaces of lines 2-4 and 3-5,
  submitted in this order, the error names lines 2-4 as edit 2 and lines 3-5 as edit 1:
  the check runs on the sorted array, and the positions are positions in that array.\<close>

theorem overlapping_ranges_counterexample:
  "applyHashlineEditsWithReport H0 ''a\<newline>b\<newline>c\<newline>d\<newline>e''
       [Replace ''2'' (Some ''4'') (Text ''X''), Replace ''2'' (Some ''4'') (Text ''X'')] =
     Inr \<lparr>content = ''a\<newline>X\<newline>e'', noopEdits = 0, deduplicatedEdits = 1\<rparr> \<and>
   applyHashlineEditsWithReport H0 ''a''
       [Replace ''2'' (Some ''4'') (Text ''X''), Replace ''3'' (Some ''5'') (Text ''Y'')] =
     Inl (LineOutOfRange ''3'') \<and>
   applyHashlineEditsWithReport H0 ''a\<newline>b\<newline>c\<newline>d\<newline>e''
       [Replace ''2'' (Some ''4'') (Text ''X''), Replace ''3'' (Some ''5'') (Text ''Y'')] =
     Inl (OverlappingRangeEdits 2 2 4 1 3 5)"
  by code_simp

text \<open>Claim C3, amended. Take a batch whose references all parse and validate, and its
  deduplicated edits in application order, all of them edits of the batch. The ranges of
  the check are exactly the ranged replaces among them (a \<open>replace\<close> with a non-empty
  \<open>end\<close>), with their lines. If two of these ranges touch or overlap (one sorts no later
  than the other by start then end, and the other starts no later than the first one
  ends), the batch fails with \<open>OverlappingRangeEdits\<close>, and the error carries the line
  spans of two different ranged replaces that touch: the first sorts no later than the
  second by start then end, and the second starts no later than the first ends. Nothing
  is said here about the positions the error names. If the ranges are pairwise disjoint
  and non-touching, the check passes. Single-line replaces, appends and prepends never
  participate: the outcome of the check depends on the edits only through the anchors of
  the ranged replaces.\<close>

theorem overlapping_ranges_rejected:
  assumes "edits \<noteq> []"
    and "sortEdits H (dedupe_edits (dedupeEdits H edits)) = Inr S"
    and "validateLineRefs H (snapshotLines input) (collectLineRefs S) = None"
    and "collectRanges H 0 S = Inr ranges"
  shows
   "mset S = mset (dedupe_edits (dedupeEdits H edits)) \<and>
    set S \<subseteq> set edits \<and>
    (r \<in> set ranges \<longleftrightarrow>
       (\<exists>k<length S. \<exists>pos en l s e.
           S ! k = Replace pos (Some en) l \<and> en \<noteq> [] \<and>
           parseLineRef H pos = Inr s \<and> parseLineRef H en = Inr e \<and>
           r = \<lparr>range_start = line s, range_end = line e, range_idx = k\<rparr>)) \<and>
    ((\<exists>x\<in>set ranges. \<exists>y\<in>set ranges.
         x \<noteq> y \<and> compareRanges x y \<le> 0 \<and> range_start y \<le> range_end x) \<longrightarrow>
       (\<exists>i j p q. p \<in> set ranges \<and> q \<in> set ranges \<and> range_idx p \<noteq> range_idx q \<and>
          compareRanges p q \<le> 0 \<and> range_start q \<le> range_end p \<and>
          applyHashlineEditsWithReport H input edits =
            Inl (OverlappingRangeEdits i (range_start p) (range_end p)
                   j (range_start q) (range_end q)))) \<and>
    ((\<forall>x\<in>set ranges. \<forall>y\<in>set ranges.
         x \<noteq> y \<and> range_start x \<le> range_start y \<longrightarrow> range_end x < range_start y) \<longrightarrow>
       detectOverlappingRanges H S = Inr None) \<and>
    (map rangedAnchors S = map rangedAnchors S' \<longrightarrow>
       detectOverlappingRanges H S = detectOverlappingRanges H S')"
proof (intro conjI impI)
  show m: "mset S = mset (dedupe_edits (dedupeEdits H edits))"
    by (rule sortEdits_mset[OF assms(2)])
  then have "set S = set (dedupe_edits (dedupeEdits H edits))"
    by (rule mset_eq_setD)
  then show "set S \<subseteq> set edits"
    using dedupeEdits_set[of H edits] by simp
next
  show "r \<in> set ranges \<longleftrightarrow>
       (\<exists>k<length S. \<exists>pos en l s e.
           S ! k = Replace pos (Some en) l \<and> en \<noteq> [] \<and>
           parseLineRef H pos = Inr s \<and> parseLineRef H en = Inr e \<and>
           r = \<lparr>range_start = line s, range_end = line e, range_idx = k\<rparr>)"
    using collectRanges_mem[OF assms(4), of r] by simp
next
  assume "\<exists>x\<in>set ranges. \<exists>y\<in>set ranges.
         x \<noteq> y \<and> compareRanges x y \<le> 0 \<and> range_start y \<le> range_end x"
  then obtain x y where "x \<in> set ranges" "y \<in> set ranges" "x \<noteq> y"
    "compareRanges x y \<le> 0" "range_start y \<le> range_end x" by blast
  from detect_touching[OF assms(4) this] obtain p q where
    pq: "p \<in> set ranges" "q \<in> set ranges" "range_idx p \<noteq> range_idx q"
      "compareRanges p q \<le> 0" "range_start q \<le> range_end p"
    and d: "detectOverlappingRanges H S =
       Inr (Some (OverlappingRangeEdits (range_idx p + 1) (range_start p) (range_end p)
                    (range_idx q + 1) (range_start q) (range_end q)))"
    by blast
  have "applyHashlineEditsWithReport H input edits =
      Inl (OverlappingRangeEdits (range_idx p + 1) (range_start p) (range_end p)
                    (range_idx q + 1) (range_start q) (range_end q))"
    unfolding applyHashlineEditsWithReport_sorted[OF assms(1,2)] assms(3) d by simp
  with pq show "\<exists>i j p q. p \<in> set ranges \<and> q \<in> set ranges \<and> range_idx p \<noteq> range_idx q \<and>
          compareRanges p q \<le> 0 \<and> range_start q \<le> range_end p \<and>
          applyHashlineEditsWithReport H input edits =
            Inl (OverlappingRangeEdits i (range_start p) (range_end p)
                   j (range_start q) (range_end q))"
    by blast
next
  assume "\<forall>x\<in>set ranges. \<forall>y\<in>set ranges.
         x \<noteq> y \<and> range_start x \<le> range_start y \<longrightarrow> range_end x < range_start y"
  then show "detectOverlappingRanges H S = Inr None"
    by (rule detect_disjoint[OF assms(4)])
next
  assume "map rangedAnchors S = map rangedAnchors S'"
  then show "detectOverlappingRanges H S = detectOverlappingRanges H S'"
    by (rule detectOverlappingRanges_cong)
qed

theorem overlapping_ranges_rejected_witness:
  "sortEdits H0 (dedupe_edits (dedupeEdits H0
       [Replace ''2'' (Some ''4'') (Text ''X''), Replace ''3'' (Some ''5'') (Text ''Y'')])) =
     Inr [Replace ''3'' (Some ''5'') (Text ''Y''), Replace ''2'' (Some ''4'') (Text ''X'')] \<and>
   collectRanges H0 0 [Replace ''3'' (Some ''5'') (Text ''Y''), Replace ''2'' (Some ''4'') (Text ''X'')] =
     Inr [\<lparr>range_start = 3, range_end = 5, range_idx = 0\<rparr>,
          \<lparr>range_start = 2, range_end = 4, range_idx = 1\<rparr>] \<and>
   (\<exists>i j. applyHashlineEditsWithReport H0 ''a\<newline>b\<newline>c\<newline>d\<newline>e''
          [Replace ''2'' (Some ''4'') (Text ''X''), Replace ''3'' (Some ''5'') (Text ''Y'')] =
        Inl (OverlappingRangeEdits i 2 4 j 3 5)) \<and>
   detectOverlappingRanges H0
       [Replace ''4'' (Some ''5'') (Text ''Y''), Append (Some ''4'') (Text ''z''),
        Replace ''2'' (Some ''3'') (Text ''X'')] = Inr None"
proof -
  let ?t = "''a\<newline>b\<newline>c\<newline>d\<newline>e''"
  let ?E = "[Replace ''2'' (Some ''4'') (Text ''X''), Replace ''3'' (Some ''5'') (Text ''Y'')]"
  let ?S = "[Replace ''3'' (Some ''5'') (Text ''Y''), Replace ''2'' (Some ''4'') (Text ''X'')]"
  let ?x = "\<lparr>range_start = 2, range_end = 4, range_idx = 1\<rparr>"
  let ?y = "\<lparr>range_start = 3, range_end = 5, range_idx = 0\<rparr>"
  have ne: "?E \<noteq> []" by simp
  have s: "sortEdits H0 (dedupe_edits (dedupeEdits H0 ?E)) = Inr ?S" by code_simp
  have v: "validateLineRefs H0 (snapshotLines ?t) (collectLineRefs ?S) = None" by code_simp
  have c: "collectRanges H0 0 ?S = Inr [?y, ?x]" by code_simp
  note main = overlapping_ranges_rejected[OF ne s v c]
  have ex: "\<exists>x\<in>set [?y, ?x]. \<exists>y\<in>set [?y, ?x].
         x \<noteq> y \<and> compareRanges x y \<le> 0 \<and> range_start y \<le> range_end x"
    by (intro bexI[of _ ?x] bexI[of _ ?y]) (simp_all add: compareRanges_def)
  have "\<exists>i j (p::Range) (q::Range). p \<in> set [?y, ?x] \<and> q \<in> set [?y, ?x] \<and>
      range_idx p \<noteq> range_idx q \<and> compareRanges p q \<le> 0 \<and> range_start q \<le> range_end p \<and>
      applyHashlineEditsWithReport H0 ?t ?E =
        Inl (OverlappingRangeEdits i (range_start p) (range_end p) j (range_start q) (range_end q))"
    by (rule mp[OF main[THEN conjunct2, THEN conjunct2, THEN conjunct2, THEN conjunct1] ex])
  then obtain i j and p :: Range and q :: Range where
    pq: "p \<in> set [?y, ?x]" "q \<in> set [?y, ?x]" "range_idx p \<noteq> range_idx q"
      "compareRanges p q \<le> 0"
    and run: "applyHashlineEditsWithReport H0 ?t ?E =
        Inl (OverlappingRangeEdits i (range_start p) (range_end p) j (range_start q) (range_end q))"
    by (elim exE conjE)
  from pq have "p = ?x \<and> q = ?y"
    by (auto simp: compareRanges_def)
  with run have a: "\<exists>i j. applyHashlineEditsWithReport H0 ?t ?E =
        Inl (OverlappingRangeEdits i 2 4 j 3 5)"
    by (intro exI[of _ i] exI[of _ j]) simp
  let ?E2 = "[Replace ''2'' (Some ''3'') (Text ''X''), Append (Some ''4'') (Text ''z''),
        Replace ''4'' (Some ''5'') (Text ''Y'')]"
  let ?S2 = "[Replace ''4'' (Some ''5'') (Text ''Y''), Append (Some ''4'') (Text ''z''),
        Replace ''2'' (Some ''3'') (Text ''X'')]"
  have ne2: "?E2 \<noteq> []" by simp
  have s2: "sortEdits H0 (dedupe_edits (dedupeEdits H0 ?E2)) = Inr ?S2" by code_simp
  have v2: "validateLineRefs H0 (snapshotLines ?t) (collectLineRefs ?S2) = None" by code_simp
  have c2: "collectRanges H0 0 ?S2 =
      Inr [\<lparr>range_start = 4, range_end = 5, range_idx = 0\<rparr>,
           \<lparr>range_start = 2, range_end = 3, range_idx = 2\<rparr>]" by code_simp
  have disj: "\<forall>x\<in>set [\<lparr>range_start = 4, range_end = 5, range_idx = 0\<rparr>,
           \<lparr>range_start = 2, range_end = 3, range_idx = 2\<rparr>].
        \<forall>y\<in>set [\<lparr>range_start = 4, range_end = 5, range_idx = 0\<rparr>,
           \<lparr>range_start = 2, range_end = 3, range_idx = 2\<rparr>].
         x \<noteq> y \<and> range_start x \<le> range_start y \<longrightarrow> range_end x < range_start y"
    by simp
  with overlapping_ranges_rejected[OF ne2 s2 v2 c2, THEN conjunct2, THEN conjunct2,
          THEN conjunct2, THEN conjunct2, THEN conjunct1]
  have b: "detectOverlappingRanges H0 ?S2 = Inr None"
    by (rule mp)
  from s c a b show ?thesis by blast
qed

section \<open>The edit functions leave their input array alone\<close>

lemma alloc_nth: "a < length st \<Longrightarrow> (st @ [xs]) ! a = st ! a"
  by (simp add: nth_append)

lemma heap_applySetLine_fresh:
  assumes "a < length st"
  shows "returns_fresh st a (heap_applySetLine H st a anchor newText options)
           (applySetLine H (st ! a) anchor newText options)"
  using assms
  by (auto simp: heap_applySetLine_def applySetLine_def store_alloc_def Let_def alloc_nth
        returns_fresh_def split: option.splits sum.splits)

lemma heap_applyReplaceLines_fresh:
  assumes "a < length st"
  shows "returns_fresh st a (heap_applyReplaceLines H st a startAnchor endAnchor newText options)
           (applyReplaceLines H (st ! a) startAnchor endAnchor newText options)"
  using assms
  by (auto simp: heap_applyReplaceLines_def applyReplaceLines_def store_alloc_def Let_def alloc_nth
        returns_fresh_def split: option.splits sum.splits)

lemma heap_applyInsertAfter_fresh:
  assumes "a < length st"
  shows "returns_fresh st a (heap_applyInsertAfter H st a anchor txt options)
           (applyInsertAfter H (st ! a) anchor txt options)"
  using assms
  by (auto simp: heap_applyInsertAfter_def applyInsertAfter_def store_alloc_def Let_def alloc_nth
        returns_fresh_def split: option.splits sum.splits)

lemma heap_applyInsertBefore_fresh:
  assumes "a < length st"
  shows "returns_fresh st a (heap_applyInsertBefore H st a anchor txt options)
           (applyInsertBefore H (st ! a) anchor txt options)"
  using assms
  by (auto simp: heap_applyInsertBefore_def applyInsertBefore_def store_alloc_def Let_def alloc_nth
        returns_fresh_def split: option.splits sum.splits)

lemma heap_applyAppend_fresh:
  assumes "a < length st"
  shows "returns_fresh st a (heap_applyAppend H st a txt) (applyAppend H (st ! a) txt)"
  using assms
  by (auto simp: heap_applyAppend_def applyAppend_def store_alloc_def Let_def returns_fresh_def
        alloc_nth)

lemma heap_applyPrepend_fresh:
  assumes "a < length st"
  shows "returns_fresh st a (heap_applyPrepend H st a txt) (applyPrepend H (st ! a) txt)"
  using assms
  by (auto simp: heap_applyPrepend_def applyPrepend_def store_alloc_def Let_def returns_fresh_def
        alloc_nth)

text \<open>Claim C10. None of \<open>applySetLine\<close>, \<open>applyReplaceLines\<close>, \<open>applyInsertAfter\<close>,
  \<open>applyInsertBefore\<close>, \<open>applyAppend\<close> and \<open>applyPrepend\<close> mutates its input array. On
  the store of arrays, for every input, after the call every array that existed before
  the call, the input array among them, has the elements it had; when the function
  returns, the address it returns is that of an array allocated during the call, and that
  array holds the result of the function on values; when it throws, the error is that of
  the function on values.\<close>

theorem edit_functions_do_not_mutate:
  assumes "a < length st"
  shows
   "returns_fresh st a (heap_applySetLine H st a anchor payload options)
      (applySetLine H (st ! a) anchor payload options) \<and>
    returns_fresh st a (heap_applyReplaceLines H st a anchor endAnchor payload options)
      (applyReplaceLines H (st ! a) anchor endAnchor payload options) \<and>
    returns_fresh st a (heap_applyInsertAfter H st a anchor payload options)
      (applyInsertAfter H (st ! a) anchor payload options) \<and>
    returns_fresh st a (heap_applyInsertBefore H st a anchor payload options)
      (applyInsertBefore H (st ! a) anchor payload options) \<and>
    returns_fresh st a (heap_applyAppend H st a payload) (applyAppend H (st ! a) payload) \<and>
    returns_fresh st a (heap_applyPrepend H st a payload) (applyPrepend H (st ! a) payload)"
  using assms
  by (intro conjI heap_applySetLine_fresh heap_applyReplaceLines_fresh heap_applyInsertAfter_fresh
      heap_applyInsertBefore_fresh heap_applyAppend_fresh heap_applyPrepend_fresh)

theorem edit_functions_do_not_mutate_witness:
  "(0::nat) < length [[''a'', ''b'', ''c'']] \<and>
   heap_applySetLine H0 [[''a'', ''b'', ''c'']] 0 ''2'' (Text ''B'') None =
     (Inr 1, [[''a'', ''b'', ''c''], [''a'', ''B'', ''c'']]) \<and>
   heap_applyReplaceLines H0 [[''a'', ''b'', ''c'']] 0 ''2'' ''3'' (Text ''B'') None =
     (Inr 1, [[''a'', ''b'', ''c''], [''a'', ''B'']]) \<and>
   heap_applyInsertAfter H0 [[''a'', ''b'', ''c'']] 0 ''2'' (Text ''B'') None =
     (Inr 1, [[''a'', ''b'', ''c''], [''a'', ''b'', ''B'', ''c'']]) \<and>
   heap_applyInsertBefore H0 [[''a'', ''b'', ''c'']] 0 ''9'' (Text ''B'') None =
     (Inl (LineOutOfRange ''9''), [[''a'', ''b'', ''c'']]) \<and>
   heap_applyAppend H0 [[''a'', ''b'', ''c'']] 0 (Text ''B'') =
     (Inr 1, [[''a'', ''b'', ''c''], [''a'', ''b'', ''c'', ''B'']]) \<and>
   heap_applyPrepend H0 [[''a'', ''b'', ''c'']] 0 (Lines []) =
     (Inl (EmptyInsertText ''prepend'' None), [[''a'', ''b'', ''c'']]) \<and>
   returns_fresh [[''a'', ''b'', ''c'']] 0
     (heap_applySetLine H0 [[''a'', ''b'', ''c'']] 0 ''2'' (Text ''B'') None)
     (applySetLine H0 [''a'', ''b'', ''c''] ''2'' (Text ''B'') None) \<and>
   returns_fresh [[''a'', ''b'', ''c'']] 0
     (heap_applyPrepend H0 [[''a'', ''b'', ''c'']] 0 (Lines []))
     (applyPrepend H0 [''a'', ''b'', ''c''] (Lines []))"
proof -
  let ?st = "[[''a'', ''b'', ''c'']]"
  have a: "(0::nat) < length ?st" by simp
  have r1: "heap_applySetLine H0 ?st 0 ''2'' (Text ''B'') None =
     (Inr 1, [[''a'', ''b'', ''c''], [''a'', ''B'', ''c'']])" by code_simp
  have r2: "heap_applyReplaceLines H0 ?st 0 ''2'' ''3'' (Text ''B'') None =
     (Inr 1, [[''a'', ''b'', ''c''], [''a'', ''B'']])" by code_simp
  have r3: "heap_applyInsertAfter H0 ?st 0 ''2'' (Text ''B'') None =
     (Inr 1, [[''a'', ''b'', ''c''], [''a'', ''b'', ''B'', ''c'']])" by code_simp
  have r4: "heap_applyInsertBefore H0 ?st 0 ''9'' (Text ''B'') None =
     (Inl (LineOutOfRange ''9''), [[''a'', ''b'', ''c'']])" by code_simp
  have r5: "heap_applyAppend H0 ?st 0 (Text ''B'') =
     (Inr 1, [[''a'', ''b'', ''c''], [''a'', ''b'', ''c'', ''B'']])" by code_simp
  have r6: "heap_applyPrepend H0 ?st 0 (Lines []) =
     (Inl (EmptyInsertText ''prepend'' None), [[''a'', ''b'', ''c'']])" by code_simp
  note main = edit_functions_do_not_mutate[OF a, of H0 "''2''" "Text ''B''" None "''3''"]
  from main have f1: "returns_fresh ?st 0 (heap_applySetLine H0 ?st 0 ''2'' (Text ''B'') None)
     (applySetLine H0 (?st ! 0) ''2'' (Text ''B'') None)" by (rule conjunct1)
  note main2 = edit_functions_do_not_mutate[OF a, of H0 "''2''" "Lines []" None "''3''"]
  from main2 have f2: "returns_fresh ?st 0 (heap_applyPrepend H0 ?st 0 (Lines []))
     (applyPrepend H0 (?st ! 0) (Lines []))" by simp
  from a r1 r2 r3 r4 r5 r6 f1 f2 show ?thesis by simp
qed

section \<open>Stale-wrap restoration\<close>

subsection \<open>The candidates are the unique spans\<close>

lemma concat_map_mem: "x \<in> set xs \<Longrightarrow> y \<in> set (f x) \<Longrightarrow> y \<in> set (concat (map f xs))"
  by auto

lemma mem_spanIndices:
  "(s, l) \<in> set (spanIndices n) \<longleftrightarrow> 2 \<le> l \<and> l \<le> 10 \<and> s + l \<le> n"
proof
  assume "(s, l) \<in> set (spanIndices n)"
  then obtain start where "start < n" "(s, l) \<in> set (map (\<lambda>len. (start, len)) [2..<Suc (min 10 (n - start))])"
    unfolding spanIndices_def by (auto simp del: upt_Suc)
  then have "s < n \<and> 2 \<le> l \<and> l < Suc (min 10 (n - s))"
    by (auto simp del: upt_Suc)
  then show "2 \<le> l \<and> l \<le> 10 \<and> s + l \<le> n"
    by arith
next
  assume a: "2 \<le> l \<and> l \<le> 10 \<and> s + l \<le> n"
  then have 1: "s \<in> set [0..<n]" by simp
  from a have "2 \<le> l \<and> l < Suc (min 10 (n - s))" by arith
  then have "l \<in> set [2..<Suc (min 10 (n - s))]" by (simp del: upt_Suc)
  then have 2: "(s, l) \<in> set (map (\<lambda>len. (s, len)) [2..<Suc (min 10 (n - s))])"
    by (simp only: set_map) (rule imageI)
  show "(s, l) \<in> set (spanIndices n)"
    unfolding spanIndices_def
    by (rule concat_map_mem[where x = s
          and f = "\<lambda>start. map (\<lambda>len. (start, len)) [2..<Suc (min 10 (n - start))]", OF 1 2])
qed

lemma set_spanIndices:
  "set (spanIndices n) = {(s, l). 2 \<le> l \<and> l \<le> 10 \<and> s + l \<le> n}"
  using mem_spanIndices by auto

lemma spanIndices_short: "n < 2 \<Longrightarrow> spanIndices n = []"
  using set_spanIndices[of n] by (cases "spanIndices n") auto

lemma js_slice_span:
  "fst sl + snd sl \<le> length xs \<Longrightarrow>
     js_slice xs (int (fst sl)) (int (fst sl) + int (snd sl)) = spanLines xs sl"
  by (simp add: js_slice_def spanLines_def Let_def min_def)

lemma canonicalToOriginal_snoc:
  "canonicalToOriginal (xs @ [x]) = canonicalStep x (canonicalToOriginal xs)"
  by (simp add: canonicalToOriginal_def)

lemma map_of_canonicalToOriginal:
  "map_of (canonicalToOriginal originalLines) c =
     (case matchingOriginals originalLines c of
        [] \<Rightarrow> None
      | ln # rest \<Rightarrow> Some \<lparr>entry_line = ln, entry_count = Suc (length rest)\<rparr>)"
proof (induction originalLines arbitrary: c rule: rev_induct)
  case Nil
  then show ?case by (simp add: canonicalToOriginal_def matchingOriginals_def)
next
  case (snoc x xs)
  have m: "matchingOriginals (xs @ [x]) c =
      matchingOriginals xs c @ (if stripAllWhitespace x = c then [x] else [])"
    by (simp add: matchingOriginals_def)
  show ?case
  proof (cases "stripAllWhitespace x = c")
    case False
    then show ?thesis
      using snoc[of c]
      by (simp add: canonicalToOriginal_snoc canonicalStep_def Let_def update_conv' m
          split: option.splits)
  next
    case True
    show ?thesis
    proof (cases "matchingOriginals xs c")
      case Nil
      with True snoc[of c] show ?thesis
        by (simp add: canonicalToOriginal_snoc canonicalStep_def Let_def update_conv' m)
    next
      case (Cons a as)
      with True snoc[of c] show ?thesis
        by (simp add: canonicalToOriginal_snoc canonicalStep_def Let_def update_conv' m)
    qed
  qed
qed

lemma candidateStep_qualifies:
  assumes "sl \<in> set (spanIndices (length replacementLines))"
  shows "candidateStep (canonicalToOriginal originalLines) replacementLines sl st =
     (if qualifies originalLines replacementLines sl
      then (AList.update (spanCanonical replacementLines sl)
              ((case map_of (fst st) (spanCanonical replacementLines sl) of
                  None \<Rightarrow> 0 | Some n \<Rightarrow> n) + 1) (fst st),
            AList.update (spanCanonical replacementLines sl)
              (spanCandidate originalLines replacementLines sl) (snd st))
      else st)"
proof -
  from assms have b: "fst sl + snd sl \<le> length replacementLines"
    by (auto simp: set_spanIndices)
  show ?thesis
  proof (cases "matchingOriginals originalLines (spanCanonical replacementLines sl)")
    case Nil
    then show ?thesis
      by (simp add: candidateStep_def js_slice_span[OF b] Let_def qualifies_def
          map_of_canonicalToOriginal spanCanonical_def[symmetric])
  next
    case (Cons a as)
    then show ?thesis
      by (auto simp: candidateStep_def js_slice_span[OF b] Let_def qualifies_def
          map_of_canonicalToOriginal spanCanonical_def[symmetric] spanCandidate_def
          list_ex_iff list_all_iff)
  qed
qed

lemma update_absent: "k \<notin> fst ` set al \<Longrightarrow> AList.update k v al = al @ [(k, v)]"
  by (induction al) auto

lemma filter_update_dropped:
  "(\<And>w. \<not> P (k, w)) \<Longrightarrow> filter P (AList.update k v al) = filter P al"
  by (induction al) auto

lemma collect_invariant:
  fixes orig repl :: "string list"
  defines "canon \<equiv> spanCanonical repl"
    and "mk \<equiv> spanCandidate orig repl"
  assumes "set P \<subseteq> set (spanIndices (length repl))"
  defines "st \<equiv> foldl (\<lambda>st sl. candidateStep (canonicalToOriginal orig) repl sl st) ([], []) P"
    and "Q \<equiv> filter (qualifies orig repl) P"
  shows "(\<forall>c. (case map_of (fst st) c of None \<Rightarrow> 0 | Some k \<Rightarrow> k)
              = length (filter (\<lambda>sl. canon sl = c) Q)) \<and>
         (\<forall>c. c \<in> fst ` set (snd st) \<longleftrightarrow> 0 < length (filter (\<lambda>sl. canon sl = c) Q)) \<and>
         filter (\<lambda>kv. length (filter (\<lambda>sl. canon sl = fst kv) Q) = 1) (snd st)
           = map (\<lambda>sl. (canon sl, mk sl))
               (filter (\<lambda>sl. length (filter (\<lambda>x. canon x = canon sl) Q) = 1) Q)"
  using assms(3) unfolding st_def Q_def
proof (induction P rule: rev_induct)
  case Nil
  then show ?case by simp
next
  case (snoc sl P)
  define st0 where "st0 = foldl (\<lambda>st sl. candidateStep (canonicalToOriginal orig) repl sl st) ([], []) P"
  define Q0 where "Q0 = filter (qualifies orig repl) P"
  define cnt where "cnt = (\<lambda>c. length (filter (\<lambda>sl. canon sl = c) Q0))"
  from snoc.prems have sub: "set P \<subseteq> set (spanIndices (length repl))"
    and mem: "sl \<in> set (spanIndices (length repl))" by auto
  note ih = snoc.IH[OF sub, folded st0_def Q0_def]
  have i1: "\<And>c. (case map_of (fst st0) c of None \<Rightarrow> 0 | Some k \<Rightarrow> k) = cnt c"
    and i2: "\<And>c. c \<in> fst ` set (snd st0) \<longleftrightarrow> 0 < cnt c"
    and i3: "filter (\<lambda>kv. cnt (fst kv) = 1) (snd st0)
           = map (\<lambda>sl. (canon sl, mk sl)) (filter (\<lambda>sl. cnt (canon sl) = 1) Q0)"
    using ih unfolding cnt_def by blast+
  have step: "foldl (\<lambda>st sl. candidateStep (canonicalToOriginal orig) repl sl st) ([], []) (P @ [sl])
      = candidateStep (canonicalToOriginal orig) repl sl st0"
    by (simp add: st0_def)
  show ?case
  proof (cases "qualifies orig repl sl")
    case False
    then have "candidateStep (canonicalToOriginal orig) repl sl st0 = st0"
      by (simp add: candidateStep_qualifies[OF mem])
    moreover from False have "filter (qualifies orig repl) (P @ [sl]) = Q0"
      by (simp add: Q0_def)
    ultimately show ?thesis
      unfolding step using i1 i2 i3 by (simp add: cnt_def)
  next
    case True
    define c where "c = canon sl"
    define st1 where "st1 = (AList.update c (cnt c + 1) (fst st0), AList.update c (mk sl) (snd st0))"
    have s1: "candidateStep (canonicalToOriginal orig) repl sl st0 = st1"
      using True i1[of c]
      by (simp add: candidateStep_qualifies[OF mem] st1_def c_def canon_def mk_def)
    have q1: "filter (qualifies orig repl) (P @ [sl]) = Q0 @ [sl]"
      using True by (simp add: Q0_def)
    define cnt1 where "cnt1 = (\<lambda>x. length (filter (\<lambda>sl. canon sl = x) (Q0 @ [sl])))"
    have cnt1: "\<And>x. cnt1 x = (if x = c then cnt c + 1 else cnt x)"
      by (auto simp: cnt1_def cnt_def c_def)
    have g1: "\<And>x. (case map_of (fst st1) x of None \<Rightarrow> 0 | Some k \<Rightarrow> k) = cnt1 x"
      using i1 by (simp add: st1_def update_conv' cnt1)
    have g2: "\<And>x. x \<in> fst ` set (snd st1) \<longleftrightarrow> 0 < cnt1 x"
      using i2 by (auto simp: st1_def dom_update cnt1)
    have g3: "filter (\<lambda>kv. cnt1 (fst kv) = 1) (snd st1)
           = map (\<lambda>sl. (canon sl, mk sl)) (filter (\<lambda>sl. cnt1 (canon sl) = 1) (Q0 @ [sl]))"
    proof (cases "cnt c = 0")
      case True
      then have absent: "c \<notin> fst ` set (snd st0)" using i2[of c] by simp
      have none: "\<And>x. x \<in> set Q0 \<Longrightarrow> canon x \<noteq> c"
        using True by (auto simp: cnt_def filter_empty_conv)
      have "filter (\<lambda>kv. cnt1 (fst kv) = 1) (snd st1)
          = filter (\<lambda>kv. cnt1 (fst kv) = 1) (snd st0) @ [(c, mk sl)]"
        using True by (simp add: st1_def update_absent[OF absent] cnt1)
      also have "filter (\<lambda>kv. cnt1 (fst kv) = 1) (snd st0) = filter (\<lambda>kv. cnt (fst kv) = 1) (snd st0)"
        using absent by (intro filter_cong) (auto simp: cnt1)
      also have "filter (\<lambda>x. cnt1 (canon x) = 1) (Q0 @ [sl])
          = filter (\<lambda>x. cnt (canon x) = 1) Q0 @ [sl]"
      proof -
        have "filter (\<lambda>x. cnt1 (canon x) = 1) Q0 = filter (\<lambda>x. cnt (canon x) = 1) Q0"
          using none by (intro filter_cong) (auto simp: cnt1)
        then show ?thesis using True by (simp add: cnt1 c_def)
      qed
      ultimately show ?thesis using i3 by (simp add: c_def)
    next
      case False
      have "filter (\<lambda>kv. cnt1 (fst kv) = 1) (snd st1) = filter (\<lambda>kv. cnt1 (fst kv) = 1) (snd st0)"
        unfolding st1_def snd_conv
        using False by (intro filter_update_dropped) (simp add: cnt1)
      also have "\<dots> = filter (\<lambda>kv. fst kv \<noteq> c) (filter (\<lambda>kv. cnt (fst kv) = 1) (snd st0))"
        using False by (auto simp: cnt1 intro!: filter_cong)
      also have "\<dots> = filter (\<lambda>kv. fst kv \<noteq> c)
           (map (\<lambda>sl. (canon sl, mk sl)) (filter (\<lambda>sl. cnt (canon sl) = 1) Q0))"
        by (simp only: i3)
      also have "\<dots> = map (\<lambda>sl. (canon sl, mk sl))
           (filter (\<lambda>x. canon x \<noteq> c) (filter (\<lambda>sl. cnt (canon sl) = 1) Q0))"
        by (simp add: filter_map comp_def)
      also have "filter (\<lambda>x. canon x \<noteq> c) (filter (\<lambda>sl. cnt (canon sl) = 1) Q0)
          = filter (\<lambda>x. cnt1 (canon x) = 1) (Q0 @ [sl])"
        using False by (auto simp: cnt1 c_def intro!: filter_cong)
      finally show ?thesis .
    qed
    from g1 g2 g3 show ?thesis
      unfolding step s1 q1 cnt1_def by blast
  qed
qed

subsection \<open>Splicing from the last span backward\<close>

lemma uniqueCandidates_spans:
  "uniqueCandidates orig repl = map (spanCandidate orig repl) (uniqueSpans orig repl)"
proof -
  define P where "P = spanIndices (length repl)"
  define st where "st = collectCandidates orig repl"
  define Q where "Q = filter (qualifies orig repl) P"
  define cnt where "cnt = (\<lambda>c. length (filter (\<lambda>sl. spanCanonical repl sl = c) Q))"
  have st: "st = foldl (\<lambda>st sl. candidateStep (canonicalToOriginal orig) repl sl st) ([], []) P"
    by (simp add: st_def collectCandidates_def P_def)
  have sub: "set P \<subseteq> set (spanIndices (length repl))" by (simp add: P_def)
  note inv = collect_invariant[OF sub, of orig, folded st Q_def]
  have i1: "\<And>c. (case map_of (fst st) c of None \<Rightarrow> 0 | Some k \<Rightarrow> k) = cnt c"
    and i3: "filter (\<lambda>kv. cnt (fst kv) = 1) (snd st)
           = map (\<lambda>sl. (spanCanonical repl sl, spanCandidate orig repl sl))
               (filter (\<lambda>sl. cnt (spanCanonical repl sl) = 1) Q)"
    using inv unfolding cnt_def by blast+
  have "uniqueCandidates orig repl = map snd (filter (\<lambda>kv. cnt (fst kv) = 1) (snd st))"
    by (simp add: uniqueCandidates_def st_def[symmetric] i1 Let_def)
  also have "\<dots> = map (spanCandidate orig repl) (filter (\<lambda>sl. cnt (spanCanonical repl sl) = 1) Q)"
    unfolding i3 by (simp add: comp_def)
  also have "filter (\<lambda>sl. cnt (spanCanonical repl sl) = 1) Q = filter (uniqueSpan orig repl) P"
    unfolding Q_def cnt_def uniqueSpan_def P_def filter_filter
    by (intro filter_cong) (auto intro!: arg_cong[where f = length] filter_cong)
  finally show ?thesis by (simp add: uniqueSpans_def P_def)
qed

lemma sort_cmp_reverse:
  assumes "sorted_wrt (\<lambda>a b. cmp a b > 0) xs"
  shows "sort_cmp cmp xs = rev xs"
  using assms
proof (induction xs)
  case Nil
  then show ?case by (simp add: sort_cmp_def)
next
  case (Cons x xs)
  then have ih: "sort_cmp cmp xs = rev xs" and gt: "\<forall>y\<in>set xs. cmp x y > 0" by auto
  have ins: "\<And>ys. \<forall>y\<in>set ys. cmp x y > 0 \<Longrightarrow> insort_cmp cmp x ys = ys @ [x]"
  proof -
    fix ys show "\<forall>y\<in>set ys. cmp x y > 0 \<Longrightarrow> insort_cmp cmp x ys = ys @ [x]"
      by (induction ys) auto
  qed
  have "sort_cmp cmp (x # xs) = insort_cmp cmp x (sort_cmp cmp xs)"
    by (simp add: sort_cmp_def)
  with ih ins[of "rev xs"] gt show ?case by simp
qed

lemma js_splice_inside:
  assumes "s + l \<le> length xs"
  shows "js_splice xs (int s) (int l) items = take s xs @ items @ drop (s + l) xs"
  using assms by (simp add: js_splice_def Let_def min_def max_def nat_add_distrib)

lemma spliceCandidate_inside:
  assumes "cand_start c + cand_len c \<le> length xs"
  shows "spliceCandidate xs c = take (cand_start c) xs @ [cand_replacement c]
            @ drop (cand_start c + cand_len c) xs"
  using assms by (simp add: spliceCandidate_def js_splice_inside)

text \<open>Splices of descending, disjoint spans inside a prefix stay inside the prefix.\<close>

lemma foldl_splice_prefix:
  assumes "sorted_wrt (\<lambda>a b. cand_start b + cand_len b \<le> cand_start a) ds"
    and "\<forall>d\<in>set ds. cand_start d + cand_len d \<le> length xs"
  shows "foldl spliceCandidate (xs @ ys) ds = foldl spliceCandidate xs ds @ ys"
  using assms
proof (induction ds arbitrary: xs)
  case Nil
  then show ?case by simp
next
  case (Cons d ds)
  from Cons.prems have d: "cand_start d + cand_len d \<le> length xs" by simp
  have 1: "spliceCandidate (xs @ ys) d = spliceCandidate xs d @ ys"
    using d by (simp add: spliceCandidate_inside)
  have len: "\<forall>e\<in>set ds. cand_start e + cand_len e \<le> length (spliceCandidate xs d)"
  proof
    fix e assume "e \<in> set ds"
    with Cons.prems(1) have "cand_start e + cand_len e \<le> cand_start d" by simp
    also have "\<dots> \<le> length (spliceCandidate xs d)"
      using d by (simp add: spliceCandidate_inside)
    finally show "cand_start e + cand_len e \<le> length (spliceCandidate xs d)" .
  qed
  from Cons.prems(1) have srt: "sorted_wrt (\<lambda>a b. cand_start b + cand_len b \<le> cand_start a) ds"
    by simp
  show ?case
    using Cons.IH[OF srt len] by (simp add: 1)
qed

lemma replaceSpansFrom_snoc:
  assumes "sorted_wrt (\<lambda>a b. cand_start a + cand_len a \<le> cand_start b) (cs @ [c])"
    and "\<forall>a\<in>set cs. pos \<le> cand_start a"
    and "pos \<le> cand_start c"
  shows "replaceSpansFrom pos (cs @ [c]) lns =
     replaceSpansFrom pos cs (take (cand_start c) lns) @ [cand_replacement c]
       @ drop (cand_start c + cand_len c) lns"
  using assms
proof (induction cs arbitrary: pos)
  case Nil
  then show ?case by (simp add: drop_take)
next
  case (Cons a cs)
  from Cons.prems(1) have srt: "sorted_wrt (\<lambda>a b. cand_start a + cand_len a \<le> cand_start b) (cs @ [c])"
    and ac: "cand_start a + cand_len a \<le> cand_start c"
    and acs: "\<forall>b\<in>set cs. cand_start a + cand_len a \<le> cand_start b"
    by (auto simp: sorted_wrt_append)
  have ih: "replaceSpansFrom (cand_start a + cand_len a) (cs @ [c]) lns =
     replaceSpansFrom (cand_start a + cand_len a) cs (take (cand_start c) lns) @ [cand_replacement c]
       @ drop (cand_start c + cand_len c) lns"
    by (rule Cons.IH[OF srt acs ac])
  have "take (cand_start a - pos) (drop pos (take (cand_start c) lns))
      = take (cand_start a - pos) (drop pos lns)"
    using ac by (simp add: drop_take min_def)
  with ih show ?case by simp
qed

lemma foldl_splice_descending:
  assumes "sorted_wrt (\<lambda>a b. cand_start a + cand_len a \<le> cand_start b) cs"
    and "\<forall>c\<in>set cs. cand_start c + cand_len c \<le> length lns"
  shows "foldl spliceCandidate lns (rev cs) = replaceSpansFrom 0 cs lns"
  using assms
proof (induction cs arbitrary: lns rule: rev_induct)
  case Nil
  then show ?case by simp
next
  case (snoc c cs)
  from snoc.prems(1) have srt: "sorted_wrt (\<lambda>a b. cand_start a + cand_len a \<le> cand_start b) cs"
    and before: "\<forall>a\<in>set cs. cand_start a + cand_len a \<le> cand_start c"
    by (auto simp: sorted_wrt_append)
  from snoc.prems(2) have c: "cand_start c + cand_len c \<le> length lns" by simp
  have desc: "sorted_wrt (\<lambda>a b. cand_start b + cand_len b \<le> cand_start a) (rev cs)"
    using srt by (simp add: sorted_wrt_rev)
  have inside: "\<forall>d\<in>set (rev cs). cand_start d + cand_len d \<le> length (take (cand_start c) lns)"
    using before c by auto
  have "foldl spliceCandidate lns (rev (cs @ [c])) = foldl spliceCandidate (spliceCandidate lns c) (rev cs)"
    by simp
  also have "\<dots> = foldl spliceCandidate
      (take (cand_start c) lns @ ([cand_replacement c] @ drop (cand_start c + cand_len c) lns)) (rev cs)"
    by (simp add: spliceCandidate_inside[OF c])
  also have "\<dots> = foldl spliceCandidate (take (cand_start c) lns) (rev cs)
      @ ([cand_replacement c] @ drop (cand_start c + cand_len c) lns)"
    by (rule foldl_splice_prefix[OF desc inside])
  also have "foldl spliceCandidate (take (cand_start c) lns) (rev cs)
      = replaceSpansFrom 0 cs (take (cand_start c) lns)"
    using inside by (intro snoc.IH[OF srt]) simp
  finally show ?case
    using replaceSpansFrom_snoc[OF snoc.prems(1), of 0 lns] by simp
qed

lemma uniqueSpans_no_original: "uniqueSpans [] repl = []"
  by (simp add: uniqueSpans_def uniqueSpan_def qualifies_def matchingOriginals_def)

lemma uniqueSpans_short: "length repl < 2 \<Longrightarrow> uniqueSpans orig repl = []"
  by (simp add: uniqueSpans_def spanIndices_short)

lemma mem_uniqueSpans:
  "sl \<in> set (uniqueSpans orig repl) \<longleftrightarrow>
     2 \<le> snd sl \<and> snd sl \<le> 10 \<and> fst sl + snd sl \<le> length repl \<and> uniqueSpan orig repl sl"
  using mem_spanIndices[of "fst sl" "snd sl" "length repl"]
  by (auto simp: uniqueSpans_def)

lemma restoreOldWrappedLines_ascending_spans:
  "(sorted_wrt (\<lambda>a b. fst a + snd a \<le> fst b) (uniqueSpans orig repl) \<longrightarrow>
      restoreOldWrappedLines orig repl =
        replaceSpansFrom 0 (map (spanCandidate orig repl) (uniqueSpans orig repl)) repl) \<and>
   (uniqueSpans orig repl = [] \<longrightarrow> restoreOldWrappedLines orig repl = repl) \<and>
   (sl \<in> set (uniqueSpans orig repl) \<longleftrightarrow>
      2 \<le> snd sl \<and> snd sl \<le> 10 \<and> fst sl + snd sl \<le> length repl \<and> uniqueSpan orig repl sl)"
proof (intro conjI impI)
  show "sl \<in> set (uniqueSpans orig repl) \<longleftrightarrow>
      2 \<le> snd sl \<and> snd sl \<le> 10 \<and> fst sl + snd sl \<le> length repl \<and> uniqueSpan orig repl sl"
    by (rule mem_uniqueSpans)
next
  assume "uniqueSpans orig repl = []"
  then show "restoreOldWrappedLines orig repl = repl"
    by (simp add: restoreOldWrappedLines_def uniqueCandidates_spans Let_def)
next
  assume asc: "sorted_wrt (\<lambda>a b. fst a + snd a \<le> fst b) (uniqueSpans orig repl)"
  let ?U = "uniqueSpans orig repl"
  let ?cs = "map (spanCandidate orig repl) ?U"
  show "restoreOldWrappedLines orig repl = replaceSpansFrom 0 ?cs repl"
  proof (cases "length orig = 0 \<or> length repl < 2 \<or> ?U = []")
    case True
    then have "?U = []"
      using uniqueSpans_no_original[of repl] uniqueSpans_short[of repl orig] by auto
    then show ?thesis
      by (simp add: restoreOldWrappedLines_def uniqueCandidates_spans Let_def)
  next
    case False
    have cs: "sorted_wrt (\<lambda>a b. cand_start a + cand_len a \<le> cand_start b) ?cs"
      using asc by (simp add: sorted_wrt_map spanCandidate_def)
    have inside: "\<forall>c\<in>set ?cs. cand_start c + cand_len c \<le> length repl"
      by (auto simp: mem_uniqueSpans spanCandidate_def)
    have "sorted_wrt (\<lambda>a b. int (cand_start b) - int (cand_start a) > 0) ?cs"
    proof (rule sorted_wrt_mono_rel[OF _ cs])
      fix a b assume "a \<in> set ?cs" "b \<in> set ?cs" "cand_start a + cand_len a \<le> cand_start b"
      moreover from this(1) have "2 \<le> cand_len a"
        by (auto simp: mem_uniqueSpans spanCandidate_def)
      ultimately show "int (cand_start b) - int (cand_start a) > 0" by simp
    qed
    then have srt: "sort_cmp (\<lambda>a b. int (cand_start b) - int (cand_start a)) ?cs = rev ?cs"
      by (rule sort_cmp_reverse)
    from False have "restoreOldWrappedLines orig repl =
        foldl spliceCandidate repl (sort_cmp (\<lambda>a b. int (cand_start b) - int (cand_start a)) ?cs)"
      by (simp add: restoreOldWrappedLines_def uniqueCandidates_spans Let_def)
    also have "\<dots> = replaceSpansFrom 0 ?cs repl"
      unfolding srt by (rule foldl_splice_descending[OF cs inside])
    finally show ?thesis .
  qed
qed

lemma sorted_wrt_concat_map_pairs:
  assumes "sorted_wrt (<) (xs :: nat list)"
    and "\<And>x. sorted_wrt (<) (ys x)"
  shows "sorted_wrt (\<lambda>a b. fst a < fst b \<or> (fst a = fst b \<and> snd a < snd b))
           (concat (map (\<lambda>x. map (\<lambda>y. (x, y :: nat)) (ys x)) xs))"
  using assms(1)
proof (induction xs)
  case Nil
  then show ?case by simp
next
  case (Cons x xs)
  have 1: "sorted_wrt (\<lambda>a b. fst a < fst b \<or> (fst a = fst b \<and> snd a < snd b))
      (map (\<lambda>y. (x, y)) (ys x))"
    using assms(2)[of x] by (simp add: sorted_wrt_map)
  from Cons show ?case
    by (auto simp: sorted_wrt_append 1)
qed

lemma spanIndices_sorted:
  "sorted_wrt (\<lambda>a b. fst a < fst b \<or> (fst a = fst b \<and> snd a < snd b)) (spanIndices n)"
  unfolding spanIndices_def
  by (rule sorted_wrt_concat_map_pairs) (simp_all del: upt_Suc)

lemma uniqueSpans_ascending:
  assumes "\<forall>a\<in>set (uniqueSpans orig repl). \<forall>b\<in>set (uniqueSpans orig repl).
             a \<noteq> b \<longrightarrow> fst a + snd a \<le> fst b \<or> fst b + snd b \<le> fst a"
  shows "sorted_wrt (\<lambda>a b. fst a + snd a \<le> fst b) (uniqueSpans orig repl)"
proof (rule sorted_wrt_mono_rel)
  show "sorted_wrt (\<lambda>a b. fst a < fst b \<or> (fst a = fst b \<and> snd a < snd b)) (uniqueSpans orig repl)"
    unfolding uniqueSpans_def by (intro sorted_wrt_filter spanIndices_sorted)
next
  fix a b
  assume a: "a \<in> set (uniqueSpans orig repl)" and b: "b \<in> set (uniqueSpans orig repl)"
    and lt: "fst a < fst b \<or> (fst a = fst b \<and> snd a < snd b)"
  from lt have "a \<noteq> b" by auto
  with assms a b have d: "fst a + snd a \<le> fst b \<or> fst b + snd b \<le> fst a" by blast
  from b have "2 \<le> snd b" by (simp add: mem_uniqueSpans)
  with d lt show "fst a + snd a \<le> fst b" by auto
qed

text \<open>Claim C4, as stated, has every span of 2 to 10 replacement lines whose canonical form
  is that of exactly one original line, the span being the only one with that form,
  replaced by that original line. Three runs show otherwise. The lines \<open>a\<close>, \<open>b\<close> against
  the original \<open>ab\<close> stay as they are: a canonical form of fewer than 6 characters is
  skipped. The lines \<open>abc\<close>, a blank line and \<open>def\<close> against the original \<open>abcdef\<close> stay
  as they are: a span with a blank line is skipped. And for the lines \<open>ab\<close>, \<open>cdef\<close>, \<open>gh\<close>
  against the originals \<open>abcdef\<close> and \<open>cdefgh\<close>, both spans of two lines are such spans,
  they share the line \<open>cdef\<close>, and the result is the one line \<open>abcdef\<close>: the second original
  line is not in it.\<close>

theorem restoreOldWrappedLines_counterexample:
  "stripAllWhitespace (concat [''a'', ''b'']) = stripAllWhitespace ''ab'' \<and>
   restoreOldWrappedLines [''ab''] [''a'', ''b''] = [''a'', ''b''] \<and>
   stripAllWhitespace (concat [''abc'', '' '', ''def'']) = stripAllWhitespace ''abcdef'' \<and>
   restoreOldWrappedLines [''abcdef''] [''abc'', '' '', ''def''] = [''abc'', '' '', ''def''] \<and>
   stripAllWhitespace (concat [''ab'', ''cdef'']) = stripAllWhitespace ''abcdef'' \<and>
   stripAllWhitespace (concat [''cdef'', ''gh'']) = stripAllWhitespace ''cdefgh'' \<and>
   restoreOldWrappedLines [''abcdef'', ''cdefgh''] [''ab'', ''cdef'', ''gh''] = [''abcdef'']"
  by code_simp

text \<open>Claim C4, amended. In the stale-wrap restoration step, take the contiguous spans of 2
  to 10 replacement lines, none of them blank, whose white-space-insensitive
  concatenation has at least 6 characters and exactly matches exactly one original line
  (that line's canonical form being unique among the original lines), each span being the
  only such span yielding its canonical form. When no two of these spans share a line,
  every one of them is replaced by its single original line and every other line is kept
  in place (the splices are applied from the last match backward, and the result is the
  same as replacing the spans from left to right). When there is no such span, ambiguous
  matches included, the replacement is returned unchanged.\<close>

theorem restoreOldWrappedLines_replaces_unique_spans:
  "((\<forall>a\<in>set (uniqueSpans orig repl). \<forall>b\<in>set (uniqueSpans orig repl).
        a \<noteq> b \<longrightarrow> fst a + snd a \<le> fst b \<or> fst b + snd b \<le> fst a) \<longrightarrow>
      sorted_wrt (\<lambda>a b. fst a + snd a \<le> fst b) (uniqueSpans orig repl) \<and>
      restoreOldWrappedLines orig repl =
        replaceSpansFrom 0 (map (spanCandidate orig repl) (uniqueSpans orig repl)) repl) \<and>
   (uniqueSpans orig repl = [sl] \<longrightarrow>
      restoreOldWrappedLines orig repl =
        take (fst sl) repl @ [hd (matchingOriginals orig (spanCanonical repl sl))]
          @ drop (fst sl + snd sl) repl) \<and>
   (uniqueSpans orig repl = [] \<longrightarrow> restoreOldWrappedLines orig repl = repl) \<and>
   (sl \<in> set (uniqueSpans orig repl) \<longleftrightarrow>
      2 \<le> snd sl \<and> snd sl \<le> 10 \<and> fst sl + snd sl \<le> length repl \<and> uniqueSpan orig repl sl)"
proof (intro conjI impI)
  assume "\<forall>a\<in>set (uniqueSpans orig repl). \<forall>b\<in>set (uniqueSpans orig repl).
        a \<noteq> b \<longrightarrow> fst a + snd a \<le> fst b \<or> fst b + snd b \<le> fst a"
  then show asc: "sorted_wrt (\<lambda>a b. fst a + snd a \<le> fst b) (uniqueSpans orig repl)"
    by (rule uniqueSpans_ascending)
  with restoreOldWrappedLines_ascending_spans[of orig repl, THEN conjunct1]
  show "restoreOldWrappedLines orig repl =
        replaceSpansFrom 0 (map (spanCandidate orig repl) (uniqueSpans orig repl)) repl"
    by (rule mp)
next
  assume one: "uniqueSpans orig repl = [sl]"
  then have "sorted_wrt (\<lambda>a b. fst a + snd a \<le> fst b) (uniqueSpans orig repl)" by simp
  with restoreOldWrappedLines_ascending_spans[of orig repl, THEN conjunct1]
  have "restoreOldWrappedLines orig repl =
        replaceSpansFrom 0 (map (spanCandidate orig repl) (uniqueSpans orig repl)) repl"
    by (rule mp)
  then show "restoreOldWrappedLines orig repl =
        take (fst sl) repl @ [hd (matchingOriginals orig (spanCanonical repl sl))]
          @ drop (fst sl + snd sl) repl"
    by (simp add: one spanCandidate_def)
next
  assume "uniqueSpans orig repl = []"
  with restoreOldWrappedLines_ascending_spans[of orig repl, THEN conjunct2, THEN conjunct1]
  show "restoreOldWrappedLines orig repl = repl" by (rule mp)
next
  show "sl \<in> set (uniqueSpans orig repl) \<longleftrightarrow>
      2 \<le> snd sl \<and> snd sl \<le> 10 \<and> fst sl + snd sl \<le> length repl \<and> uniqueSpan orig repl sl"
    by (rule mem_uniqueSpans)
qed

theorem restoreOldWrappedLines_replaces_unique_spans_witness:
  "uniqueSpans [''aaa bbb'', ''ccc ddd''] [''aaa'', ''bbb'', ''ccc'', ''ddd'']
     = [(0, 2), (2, 2)] \<and>
   restoreOldWrappedLines [''aaa bbb'', ''ccc ddd''] [''aaa'', ''bbb'', ''ccc'', ''ddd'']
     = [''aaa bbb'', ''ccc ddd''] \<and>
   uniqueSpans [''aaa bbb'', ''aaa  bbb''] [''aaa'', ''bbb''] = [] \<and>
   restoreOldWrappedLines [''aaa bbb'', ''aaa  bbb''] [''aaa'', ''bbb''] = [''aaa'', ''bbb''] \<and>
   uniqueSpans [''aaa bbb''] [''x'', ''aaa'', ''bbb''] = [(1, 2)] \<and>
   restoreOldWrappedLines [''aaa bbb''] [''x'', ''aaa'', ''bbb''] = [''x'', ''aaa bbb'']"
proof -
  let ?O = "[''aaa bbb'', ''ccc ddd'']"
  let ?R = "[''aaa'', ''bbb'', ''ccc'', ''ddd'']"
  have u: "uniqueSpans ?O ?R = [(0, 2), (2, 2)]" by code_simp
  have d: "\<forall>a\<in>set (uniqueSpans ?O ?R). \<forall>b\<in>set (uniqueSpans ?O ?R).
        a \<noteq> b \<longrightarrow> fst a + snd a \<le> fst b \<or> fst b + snd b \<le> fst a"
    unfolding u by simp
  have e: "replaceSpansFrom 0 (map (spanCandidate ?O ?R) (uniqueSpans ?O ?R)) ?R
      = [''aaa bbb'', ''ccc ddd'']"
    by code_simp
  from restoreOldWrappedLines_replaces_unique_spans[of ?O ?R, THEN conjunct1] d
  have "sorted_wrt (\<lambda>a b. fst a + snd a \<le> fst b) (uniqueSpans ?O ?R) \<and>
      restoreOldWrappedLines ?O ?R =
      replaceSpansFrom 0 (map (spanCandidate ?O ?R) (uniqueSpans ?O ?R)) ?R"
    by (rule mp)
  with e have r: "restoreOldWrappedLines ?O ?R = [''aaa bbb'', ''ccc ddd'']" by simp
  let ?O2 = "[''aaa bbb'', ''aaa  bbb'']"
  let ?R2 = "[''aaa'', ''bbb'']"
  have u2: "uniqueSpans ?O2 ?R2 = []" by code_simp
  from restoreOldWrappedLines_replaces_unique_spans[of ?O2 ?R2,
      THEN conjunct2, THEN conjunct2, THEN conjunct1] u2
  have r2: "restoreOldWrappedLines ?O2 ?R2 = ?R2" by (rule mp)
  let ?O3 = "[''aaa bbb'']"
  let ?R3 = "[''x'', ''aaa'', ''bbb'']"
  have u3: "uniqueSpans ?O3 ?R3 = [(1, 2)]" by code_simp
  have h3: "hd (matchingOriginals ?O3 (spanCanonical ?R3 (1, 2))) = ''aaa bbb''" by code_simp
  from restoreOldWrappedLines_replaces_unique_spans[of ?O3 ?R3 "(1, 2)",
      THEN conjunct2, THEN conjunct1] u3
  have "restoreOldWrappedLines ?O3 ?R3 =
      take (fst (1::nat, 2::nat)) ?R3 @ [hd (matchingOriginals ?O3 (spanCanonical ?R3 (1, 2)))]
        @ drop (fst (1::nat, 2::nat) + snd (1::nat, 2::nat)) ?R3"
    by (rule mp)
  with h3 have r3: "restoreOldWrappedLines ?O3 ?R3 = [''x'', ''aaa bbb'']" by simp
  from u r u2 r2 u3 r3 show ?thesis by simp
qed

end
